theory Spec2Isabelle
  imports Main "HOL-Library.Word"
begin

section \<open>The wait array of sync0arr.cc\<close>

subsection \<open>Data model\<close>

text \<open>
  \<open>ulint\<close> is the unsigned machine word of the engine; \<open>++\<close> and \<open>--\<close> on it wrap.
  Pointers are addresses, with \<open>NULL\<close> the address 0. Thread identifiers and
  \<open>time_t\<close> values are only copied and compared.
\<close>

type_synonym ulint = "64 word"
type_synonym addr = nat
type_synonym os_thread_id_t = nat
type_synonym time_t = nat

definition NULL :: addr where
  "NULL = 0"

text \<open>
  The lock request types. The source holds them in a \<open>ulint\<close> and only compares them
  with the constants \<open>SYNC_MUTEX\<close>, \<open>RW_LOCK_SHARED\<close>, \<open>RW_LOCK_EX\<close> and
  \<open>RW_LOCK_WAIT_EX\<close>, whose numeric values are defined outside this file;
  \<open>RW_LOCK_NOT_LOCKED\<close> stands for every other value, the 0 of a cell that was never
  reserved included.
\<close>

datatype lock_type = SYNC_MUTEX | RW_LOCK_SHARED | RW_LOCK_EX | RW_LOCK_WAIT_EX | RW_LOCK_NOT_LOCKED

datatype sync_error = Ut_a_failed | Blocked

record os_event_struct =
  is_set :: bool
  ev_signal_count :: "64 word"

record ib_mutex_t =
  mutex_event :: addr
  mutex_lock_word :: nat
  mutex_thread_id :: os_thread_id_t

record rw_lock_debug_t =
  debug_thread_id :: os_thread_id_t
  debug_pass :: ulint
  debug_lock_type :: lock_type

record rw_lock_t =
  rw_lock_word :: int
  rw_event :: addr
  rw_wait_ex_event :: addr
  debug_list :: "rw_lock_debug_t list"

text \<open>
  The memory the wait array points into: a \<open>void*\<close> wait object is read as a mutex or
  as a rw-lock according to the request type of the cell, and an \<open>os_event_t\<close> is a
  pointer to an event.
\<close>

record sync_heap =
  mutex_at :: "addr \<Rightarrow> ib_mutex_t"
  rw_lock_at :: "addr \<Rightarrow> rw_lock_t"
  event_at :: "addr \<Rightarrow> os_event_struct"

record sync_cell_t =
  wait_object :: addr
  old_wait_mutex :: addr
  old_wait_rw_lock :: addr
  request_type :: lock_type
  cell_file :: string
  cell_line :: ulint
  thread :: os_thread_id_t
  waiting :: bool
  signal_count :: "64 word"
  reservation_time :: time_t

text \<open>
  \<open>os_mutex\<close> is the OS mutex protecting the array; the model keeps whether it is held.
\<close>

record sync_array_t =
  n_reserved :: ulint
  n_cells :: ulint
  array :: "sync_cell_t list"
  os_mutex :: bool
  res_count :: ulint

subsection \<open>Events\<close>

text \<open>
  Modelled from the spec: \<open>os_event_reset\<close>, \<open>os_event_set\<close> and
  \<open>os_event_wait_low\<close> are defined in os0sync.cc, which is not part of the sources at
  hand. The spec (4.A) gives an event \<open>reset() \<rightarrow> generation\<close>, \<open>set()\<close> and
  \<open>wait(generation)\<close>, where wait returns at once if the event has been set since
  the generation was observed. Setting an event that is already set changes nothing.
\<close>

definition os_event_reset :: "os_event_struct \<Rightarrow> os_event_struct \<times> 64 word" where
  "os_event_reset ev = (ev\<lparr>is_set := False\<rparr>, ev_signal_count ev)"

definition os_event_set :: "os_event_struct \<Rightarrow> os_event_struct" where
  "os_event_set ev =
     (if is_set ev then ev
      else ev\<lparr>is_set := True, ev_signal_count := ev_signal_count ev + 1\<rparr>)"

definition os_event_wait_low :: "os_event_struct \<Rightarrow> 64 word \<Rightarrow> bool" where
  "os_event_wait_low ev reset_sig_count \<longleftrightarrow>
     is_set ev \<or> ev_signal_count ev \<noteq> reset_sig_count"

subsection \<open>Cells and the array mutex\<close>

definition sync_array_get_nth_cell :: "sync_array_t \<Rightarrow> ulint \<Rightarrow> sync_error + sync_cell_t" where
  "sync_array_get_nth_cell arr n =
     (if n < n_cells arr then Inr (array arr ! unat n) else Inl Ut_a_failed)"

text \<open>
  Entering a mutex that is held does not return in a run where nobody is left to
  release it; the model answers \<open>Blocked\<close>.
\<close>

definition sync_array_enter :: "sync_array_t \<Rightarrow> sync_error + sync_array_t" where
  "sync_array_enter arr = (if os_mutex arr then Inl Blocked else Inr (arr\<lparr>os_mutex := True\<rparr>))"

definition sync_array_exit :: "sync_array_t \<Rightarrow> sync_array_t" where
  "sync_array_exit arr = arr\<lparr>os_mutex := False\<rparr>"

text \<open>\<open>memset(..., 0x0, ...)\<close> of a cell and of the array header.\<close>

definition zero_cell :: sync_cell_t where
  "zero_cell = \<lparr>wait_object = NULL, old_wait_mutex = NULL, old_wait_rw_lock = NULL,
     request_type = RW_LOCK_NOT_LOCKED, cell_file = [], cell_line = 0, thread = 0, waiting = False,
     signal_count = 0, reservation_time = 0\<rparr>"

definition sync_array_create :: "ulint \<Rightarrow> sync_error + sync_array_t" where
  "sync_array_create n =
     (if 0 < n
      then Inr \<lparr>n_reserved = 0, n_cells = n, array = replicate (unat n) zero_cell,
                os_mutex = False, res_count = 0\<rparr>
      else Inl Ut_a_failed)"

definition sync_cell_get_event :: "sync_heap \<Rightarrow> sync_cell_t \<Rightarrow> addr" where
  "sync_cell_get_event heap cell =
     (if request_type cell = SYNC_MUTEX then mutex_event (mutex_at heap (wait_object cell))
      else if request_type cell = RW_LOCK_WAIT_EX
      then rw_wait_ex_event (rw_lock_at heap (wait_object cell))
      else rw_event (rw_lock_at heap (wait_object cell)))"

subsection \<open>sync_array_validate\<close>

function validate_loop :: "sync_array_t \<Rightarrow> ulint \<Rightarrow> ulint \<Rightarrow> ulint" where
  "validate_loop arr i count =
     (if i < n_cells arr
      then validate_loop arr (i + 1)
             (if wait_object (array arr ! unat i) \<noteq> NULL then count + 1 else count)
      else count)"
  by pat_completeness auto
termination
proof (relation "measure (\<lambda>(arr, i, count). unat (n_cells arr) - unat i)")
  show "wf (measure (\<lambda>(arr, i, count). unat (n_cells arr) - unat i))"
    by simp
next
  fix arr :: sync_array_t and i count :: ulint
  assume a: "i < n_cells arr"
  have b: "unat i < unat (n_cells arr)"
    using a by (simp add: word_less_nat_alt)
  have c: "unat (n_cells arr) < 2 ^ 64"
    using unsigned_less [of "n_cells arr"] by simp
  have "unat i + 1 < 2 ^ 64"
    using b c by linarith
  then have "unat (i + 1) = Suc (unat i)"
    by (simp add: unat_word_ariths)
  then show "((arr, i + 1, if wait_object (array arr ! unat i) \<noteq> NULL then count + 1 else count),
              arr, i, count) \<in> measure (\<lambda>(arr, i, count). unat (n_cells arr) - unat i)"
    using b by simp
qed

declare validate_loop.simps [simp del]

definition sync_array_validate :: "sync_array_t \<Rightarrow> sync_error + sync_array_t" where
  "sync_array_validate arr =
     (case sync_array_enter arr of
        Inl e \<Rightarrow> Inl e
      | Inr arr1 \<Rightarrow>
          if validate_loop arr1 0 0 = n_reserved arr1 then Inr (sync_array_exit arr1)
          else Inl Ut_a_failed)"

subsection \<open>sync_array_reserve_cell\<close>

text \<open>
  The \<open>for\<close> loop of \<open>sync_array_reserve_cell\<close>: the index of the first cell from
  \<open>i\<close> on whose \<open>wait_object\<close> is \<open>NULL\<close>, or \<open>None\<close> when the loop runs to
  \<open>n_cells\<close>.
\<close>

function reserve_loop :: "sync_array_t \<Rightarrow> ulint \<Rightarrow> ulint option" where
  "reserve_loop arr i =
     (if i < n_cells arr
      then (if wait_object (array arr ! unat i) = NULL then Some i
            else reserve_loop arr (i + 1))
      else None)"
  by pat_completeness auto
termination
proof (relation "measure (\<lambda>(arr, i). unat (n_cells arr) - unat i)")
  show "wf (measure (\<lambda>(arr, i). unat (n_cells arr) - unat i))"
    by simp
next
  fix arr :: sync_array_t and i :: ulint
  assume a: "i < n_cells arr"
  have b: "unat i < unat (n_cells arr)"
    using a by (simp add: word_less_nat_alt)
  have c: "unat (n_cells arr) < 2 ^ 64"
    using unsigned_less [of "n_cells arr"] by simp
  have "unat i + 1 < 2 ^ 64"
    using b c by linarith
  then have "unat (i + 1) = Suc (unat i)"
    by (simp add: unat_word_ariths)
  then show "((arr, i + 1), arr, i) \<in> measure (\<lambda>(arr, i). unat (n_cells arr) - unat i)"
    using b by simp
qed

declare reserve_loop.simps [simp del]

text \<open>
  The result is \<open>None\<close> for \<open>false\<close> and \<open>Some i\<close> for \<open>true\<close> with \<open>*index = i\<close>.
  \<open>self\<close> is \<open>os_thread_get_curr_id()\<close> and \<open>now\<close> is \<open>time(NULL)\<close>. The path that
  finds no free cell returns without \<open>sync_array_exit\<close>, as the source does.
\<close>

definition sync_array_reserve_cell ::
  "os_thread_id_t \<Rightarrow> time_t \<Rightarrow> sync_array_t \<Rightarrow> sync_heap \<Rightarrow> addr \<Rightarrow> lock_type \<Rightarrow> string \<Rightarrow> ulint
   \<Rightarrow> sync_error + (ulint option \<times> sync_array_t \<times> sync_heap)" where
  "sync_array_reserve_cell self now arr heap object type file line =
     (if object = NULL then Inl Ut_a_failed
      else case sync_array_enter arr of
        Inl e \<Rightarrow> Inl e
      | Inr arr1 \<Rightarrow>
          let arr2 = arr1\<lparr>res_count := res_count arr1 + 1\<rparr> in
          case reserve_loop arr2 0 of
            None \<Rightarrow> Inr (None, arr2, heap)
          | Some i \<Rightarrow>
              let cell = array arr2 ! unat i;
                  cell1 = cell\<lparr>waiting := False, wait_object := object\<rparr>;
                  cell2 = (if type = SYNC_MUTEX then cell1\<lparr>old_wait_mutex := object\<rparr>
                           else cell1\<lparr>old_wait_rw_lock := object\<rparr>);
                  cell3 = cell2\<lparr>request_type := type, cell_file := file, cell_line := line\<rparr>;
                  arr3 = arr2\<lparr>array := (array arr2)[unat i := cell3],
                              n_reserved := n_reserved arr2 + 1\<rparr>;
                  arr4 = sync_array_exit arr3;
                  event = sync_cell_get_event heap cell3;
                  (ev, count) = os_event_reset (event_at heap event);
                  heap1 = heap\<lparr>event_at := (event_at heap)(event := ev)\<rparr>;
                  cell4 = cell3\<lparr>signal_count := count, reservation_time := now, thread := self\<rparr>
              in Inr (Some i, arr4\<lparr>array := (array arr4)[unat i := cell4]\<rparr>, heap1))"

subsection \<open>sync_array_free_cell\<close>

definition sync_array_free_cell :: "sync_array_t \<Rightarrow> ulint \<Rightarrow> sync_error + sync_array_t" where
  "sync_array_free_cell arr index =
     (case sync_array_enter arr of
        Inl e \<Rightarrow> Inl e
      | Inr arr1 \<Rightarrow>
          (case sync_array_get_nth_cell arr1 index of
             Inl e \<Rightarrow> Inl e
           | Inr cell \<Rightarrow>
               if wait_object cell = NULL then Inl Ut_a_failed
               else
                 let cell1 = cell\<lparr>waiting := False, wait_object := NULL, signal_count := 0\<rparr>;
                     arr2 = arr1\<lparr>array := (array arr1)[unat index := cell1]\<rparr>
                 in if n_reserved arr2 > 0
                    then Inr (sync_array_exit (arr2\<lparr>n_reserved := n_reserved arr2 - 1\<rparr>))
                    else Inl Ut_a_failed))"

subsection \<open>The sweep that wakes waiting threads\<close>

definition sync_arr_cell_can_wake_up :: "sync_heap \<Rightarrow> sync_cell_t \<Rightarrow> bool" where
  "sync_arr_cell_can_wake_up heap cell =
     (if request_type cell = SYNC_MUTEX
      then mutex_lock_word (mutex_at heap (wait_object cell)) = 0
      else if request_type cell = RW_LOCK_EX
      then rw_lock_word (rw_lock_at heap (wait_object cell)) > 0
      else if request_type cell = RW_LOCK_WAIT_EX
      then rw_lock_word (rw_lock_at heap (wait_object cell)) = 0
      else if request_type cell = RW_LOCK_SHARED
      then rw_lock_word (rw_lock_at heap (wait_object cell)) > 0
      else False)"

definition set_event_at :: "sync_heap \<Rightarrow> addr \<Rightarrow> sync_heap" where
  "set_event_at heap event = heap\<lparr>event_at := (event_at heap)(event := os_event_set (event_at heap event))\<rparr>"

text \<open>
  The loop of \<open>sync_array_wake_threads_if_sema_free_low\<close>: it runs while
  \<open>count < n_reserved\<close>, and \<open>sync_array_get_nth_cell\<close> asserts \<open>i < n_cells\<close>. The
  release predicate reads the locks as they are when the sweep starts; the sweep
  writes events only.
\<close>

function wake_loop :: "sync_array_t \<Rightarrow> sync_heap \<Rightarrow> ulint \<Rightarrow> ulint \<Rightarrow> sync_error + sync_heap" where
  "wake_loop arr heap i count =
     (if count < n_reserved arr
      then (if i < n_cells arr
            then (let cell = array arr ! unat i in
                  if wait_object cell \<noteq> NULL
                  then wake_loop arr
                         (if sync_arr_cell_can_wake_up heap cell
                          then set_event_at heap (sync_cell_get_event heap cell) else heap)
                         (i + 1) (count + 1)
                  else wake_loop arr heap (i + 1) count)
            else Inl Ut_a_failed)
      else Inr heap)"
  by pat_completeness auto
termination
proof (relation "measure (\<lambda>(arr, heap, i, count). unat (n_cells arr) - unat i)")
  show "wf (measure (\<lambda>(arr, heap, i, count). unat (n_cells arr) - unat i))"
    by simp
next
  fix arr :: sync_array_t and heap :: sync_heap and i count :: ulint and cell :: sync_cell_t
  assume a: "i < n_cells arr"
  have b: "unat i < unat (n_cells arr)"
    using a by (simp add: word_less_nat_alt)
  have c: "unat (n_cells arr) < 2 ^ 64"
    using unsigned_less [of "n_cells arr"] by simp
  have "unat i + 1 < 2 ^ 64"
    using b c by linarith
  then have d: "unat (i + 1) = Suc (unat i)"
    by (simp add: unat_word_ariths)
  show "((arr, if sync_arr_cell_can_wake_up heap cell
               then set_event_at heap (sync_cell_get_event heap cell) else heap, i + 1, count + 1),
         arr, heap, i, count) \<in> measure (\<lambda>(arr, heap, i, count). unat (n_cells arr) - unat i)"
    using b d by simp
  show "((arr, heap, i + 1, count), arr, heap, i, count)
        \<in> measure (\<lambda>(arr, heap, i, count). unat (n_cells arr) - unat i)"
    using b d by simp
qed

declare wake_loop.simps [simp del]

definition sync_array_wake_threads_if_sema_free_low ::
  "sync_array_t \<Rightarrow> sync_heap \<Rightarrow> sync_error + (sync_array_t \<times> sync_heap)" where
  "sync_array_wake_threads_if_sema_free_low arr heap =
     (case sync_array_enter arr of
        Inl e \<Rightarrow> Inl e
      | Inr arr1 \<Rightarrow>
          (case wake_loop arr1 heap 0 0 of
             Inl e \<Rightarrow> Inl e
           | Inr heap1 \<Rightarrow> Inr (sync_array_exit arr1, heap1)))"

subsection \<open>Deadlock detection (UNIV_SYNC_DEBUG)\<close>

text \<open>
  A pointer to a cell of the array is the index of the cell; \<open>sync_array_find_thread\<close>
  answers \<open>None\<close> for the \<open>NULL\<close> it returns when no reserved cell belongs to the thread.
\<close>

function find_thread_loop :: "sync_array_t \<Rightarrow> os_thread_id_t \<Rightarrow> ulint \<Rightarrow> ulint option" where
  "find_thread_loop arr thr i =
     (if i < n_cells arr
      then (if wait_object (array arr ! unat i) \<noteq> NULL \<and> thread (array arr ! unat i) = thr
            then Some i
            else find_thread_loop arr thr (i + 1))
      else None)"
  by pat_completeness auto
termination
proof (relation "measure (\<lambda>(arr, thr, i). unat (n_cells arr) - unat i)")
  show "wf (measure (\<lambda>(arr, thr, i). unat (n_cells arr) - unat i))"
    by simp
next
  fix arr :: sync_array_t and thr :: os_thread_id_t and i :: ulint
  assume a: "i < n_cells arr"
  have b: "unat i < unat (n_cells arr)"
    using a by (simp add: word_less_nat_alt)
  have c: "unat (n_cells arr) < 2 ^ 64"
    using unsigned_less [of "n_cells arr"] by simp
  have "unat i + 1 < 2 ^ 64"
    using b c by linarith
  then have "unat (i + 1) = Suc (unat i)"
    by (simp add: unat_word_ariths)
  then show "((arr, thr, i + 1), arr, thr, i)
             \<in> measure (\<lambda>(arr, thr, i). unat (n_cells arr) - unat i)"
    using b by simp
qed

declare find_thread_loop.simps [simp del]

definition sync_array_find_thread :: "sync_array_t \<Rightarrow> os_thread_id_t \<Rightarrow> ulint option" where
  "sync_array_find_thread arr thr = find_thread_loop arr thr 0"

text \<open>
  The holders of a rw-lock that the search follows from a cell, as the two \<open>for\<close>
  loops over \<open>lock->debug_list\<close> test them: for a cell requesting \<open>RW_LOCK_EX\<close> or
  \<open>RW_LOCK_WAIT_EX\<close>, and for a cell requesting \<open>RW_LOCK_SHARED\<close>.
\<close>

definition x_request_follows :: "sync_cell_t \<Rightarrow> rw_lock_debug_t \<Rightarrow> bool" where
  "x_request_follows cell debug \<longleftrightarrow>
     (debug_lock_type debug = RW_LOCK_EX \<and> debug_thread_id debug \<noteq> thread cell)
     \<or> (debug_lock_type debug = RW_LOCK_WAIT_EX \<and> debug_thread_id debug \<noteq> thread cell)
     \<or> debug_lock_type debug = RW_LOCK_SHARED"

definition s_request_follows :: "rw_lock_debug_t \<Rightarrow> bool" where
  "s_request_follows debug \<longleftrightarrow>
     debug_lock_type debug = RW_LOCK_EX \<or> debug_lock_type debug = RW_LOCK_WAIT_EX"

text \<open>
  \<open>sync_array_detect_deadlock\<close> and \<open>sync_array_deadlock_step\<close> call each other;
  \<open>deadlock_loop\<close> is the \<open>for\<close> loop over the debug list, which stops at the first
  holder whose step reports a deadlock. The debug assertions \<open>ut_ad\<close> are part of the
  model: a search that reaches depth 100 fails its assertion. \<open>depth\<close> never exceeds
  101, so it is a natural number here.
\<close>

function sync_array_detect_deadlock ::
    "os_thread_id_t \<Rightarrow> sync_array_t \<Rightarrow> sync_heap \<Rightarrow> ulint \<Rightarrow> ulint \<Rightarrow> nat \<Rightarrow> sync_error + bool"
  and sync_array_deadlock_step ::
    "os_thread_id_t \<Rightarrow> sync_array_t \<Rightarrow> sync_heap \<Rightarrow> ulint \<Rightarrow> os_thread_id_t \<Rightarrow> ulint \<Rightarrow> nat
     \<Rightarrow> sync_error + bool"
  and deadlock_loop ::
    "os_thread_id_t \<Rightarrow> sync_array_t \<Rightarrow> sync_heap \<Rightarrow> ulint \<Rightarrow> (rw_lock_debug_t \<Rightarrow> bool)
     \<Rightarrow> rw_lock_debug_t list \<Rightarrow> nat \<Rightarrow> sync_error + bool"
where
  "sync_array_detect_deadlock self arr heap start cell depth =
     (let c = array arr ! unat cell in
      if wait_object c = NULL \<or> self \<noteq> thread (array arr ! unat start) \<or> \<not> depth < 100
      then Inl Ut_a_failed
      else if \<not> waiting c then Inr False
      else if request_type c = SYNC_MUTEX
      then (let mutex = mutex_at heap (wait_object c) in
            if mutex_lock_word mutex \<noteq> 0
            then sync_array_deadlock_step self arr heap start (mutex_thread_id mutex) 0 (depth + 1)
            else Inr False)
      else if request_type c = RW_LOCK_EX \<or> request_type c = RW_LOCK_WAIT_EX
      then deadlock_loop self arr heap start (x_request_follows c)
             (debug_list (rw_lock_at heap (wait_object c))) (depth + 1)
      else if request_type c = RW_LOCK_SHARED
      then deadlock_loop self arr heap start s_request_follows
             (debug_list (rw_lock_at heap (wait_object c))) (depth + 1)
      else Inl Ut_a_failed)"
| "sync_array_deadlock_step self arr heap start thr pass depth =
     (if pass \<noteq> 0 then Inr False
      else case sync_array_find_thread arr thr of
             None \<Rightarrow> Inr False
           | Some new_cell \<Rightarrow>
               if new_cell = start then Inr True
               else sync_array_detect_deadlock self arr heap start new_cell (depth + 1))"
| "deadlock_loop self arr heap start follows [] depth = Inr False"
| "deadlock_loop self arr heap start follows (debug # rest) depth =
     (if follows debug
      then (case sync_array_deadlock_step self arr heap start (debug_thread_id debug)
                   (debug_pass debug) depth of
              Inl e \<Rightarrow> Inl e
            | Inr ret \<Rightarrow> if ret then Inr True
                        else deadlock_loop self arr heap start follows rest depth)
      else deadlock_loop self arr heap start follows rest depth)"
  by pat_completeness auto
termination
  by (relation "measures
        [\<lambda>x. case x of
                Inl (self, arr, heap, start, cell, depth) \<Rightarrow> 2 * (100 - depth)
              | Inr (Inl (self, arr, heap, start, thr, pass, depth)) \<Rightarrow> 2 * (100 - depth) + 1
              | Inr (Inr (self, arr, heap, start, follows, debugs, depth)) \<Rightarrow> 2 * (100 - depth) + 1,
         \<lambda>x. case x of
                Inl (self, arr, heap, start, cell, depth) \<Rightarrow> 0
              | Inr (Inl (self, arr, heap, start, thr, pass, depth)) \<Rightarrow> 0
              | Inr (Inr (self, arr, heap, start, follows, debugs, depth)) \<Rightarrow> Suc (length debugs)]")
     auto

declare sync_array_detect_deadlock.simps [simp del] sync_array_deadlock_step.simps [simp del]

subsection \<open>sync_array_wait_event\<close>

text \<open>
  The first part of \<open>sync_array_wait_event\<close>, up to \<open>sync_array_exit\<close>. \<open>debug\<close> tells
  whether the server is a debug build (\<open>UNIV_SYNC_DEBUG\<close>): then the thread of the
  cell is asserted and the deadlock search runs, and a deadlock ends in \<open>ut_error\<close>.
  The result carries the event and the signal count that \<open>os_event_wait_low\<close> is
  called with.
\<close>

definition sync_array_wait_event_enter ::
  "bool \<Rightarrow> os_thread_id_t \<Rightarrow> sync_array_t \<Rightarrow> sync_heap \<Rightarrow> ulint
   \<Rightarrow> sync_error + (sync_array_t \<times> addr \<times> 64 word)" where
  "sync_array_wait_event_enter debug self arr heap index =
     (case sync_array_enter arr of
        Inl e \<Rightarrow> Inl e
      | Inr arr1 \<Rightarrow>
          (case sync_array_get_nth_cell arr1 index of
             Inl e \<Rightarrow> Inl e
           | Inr cell \<Rightarrow>
               if wait_object cell = NULL \<or> waiting cell \<or> (debug \<and> self \<noteq> thread cell)
               then Inl Ut_a_failed
               else
                 let event = sync_cell_get_event heap cell;
                     cell1 = cell\<lparr>waiting := True\<rparr>;
                     arr2 = arr1\<lparr>array := (array arr1)[unat index := cell1]\<rparr>
                 in if debug
                    then (case sync_array_detect_deadlock self arr2 heap index index 0 of
                            Inl e \<Rightarrow> Inl e
                          | Inr deadlock \<Rightarrow>
                              if deadlock then Inl Ut_a_failed
                              else Inr (sync_array_exit arr2, event, signal_count cell1))
                    else Inr (sync_array_exit arr2, event, signal_count cell1)))"

text \<open>
  The whole of \<open>sync_array_wait_event\<close>. \<open>heap\<close> is the memory at the call and
  \<open>woken\<close> the memory when \<open>os_event_wait_low\<close> looks at the event; a wait on an event
  that is not signalled there does not return.
\<close>

definition sync_array_wait_event ::
  "bool \<Rightarrow> os_thread_id_t \<Rightarrow> sync_array_t \<Rightarrow> sync_heap \<Rightarrow> sync_heap \<Rightarrow> ulint
   \<Rightarrow> sync_error + sync_array_t" where
  "sync_array_wait_event debug self arr heap woken index =
     (case sync_array_wait_event_enter debug self arr heap index of
        Inl e \<Rightarrow> Inl e
      | Inr (arr1, event, count) \<Rightarrow>
          if os_event_wait_low (event_at woken event) count
          then sync_array_free_cell arr1 index
          else Inl Blocked)"

subsection \<open>sync_array_init\<close>

fun init_loop :: "nat \<Rightarrow> ulint \<Rightarrow> sync_error + sync_array_t list" where
  "init_loop 0 n_slots = Inr []"
| "init_loop (Suc k) n_slots =
     (case sync_array_create n_slots of
        Inl e \<Rightarrow> Inl e
      | Inr arr \<Rightarrow>
          (case init_loop k n_slots of
             Inl e \<Rightarrow> Inl e
           | Inr arrs \<Rightarrow> Inr (arr # arrs)))"

text \<open>
  \<open>sync_wait_array\<close> is the global array of instances (\<open>None\<close> for \<open>NULL\<close>) and
  \<open>srv_sync_array_size\<close> the configured number of instances.
\<close>

definition sync_array_init ::
  "sync_array_t list option \<Rightarrow> ulint \<Rightarrow> ulint \<Rightarrow> sync_error + sync_array_t list" where
  "sync_array_init sync_wait_array srv_sync_array_size n_threads =
     (if sync_wait_array \<noteq> None \<or> \<not> srv_sync_array_size > 0 \<or> \<not> n_threads > 0
      then Inl Ut_a_failed
      else
        let sync_array_size = srv_sync_array_size;
            n_slots = 1 + (n_threads - 1) div sync_array_size
        in init_loop (unat sync_array_size) n_slots)"

section \<open>The scratch slots of the buffer pool\<close>

record buf_tmp_buffer_t =
  reserved :: "32 word"
  crypt_buf :: addr
  comp_buf :: addr
  out_buf :: addr

text \<open>
  Modelled from the spec: \<open>my_atomic_fas32_explicit\<close> and
  \<open>my_atomic_store32_explicit\<close> are declared in my_atomic.h, which is not part of the
  sources at hand. The spec calls the first a test-and-set: it stores the new value
  and returns the one that was there.
\<close>

definition my_atomic_fas32 :: "buf_tmp_buffer_t \<Rightarrow> 32 word \<Rightarrow> 32 word \<times> buf_tmp_buffer_t" where
  "my_atomic_fas32 slot v = (reserved slot, slot\<lparr>reserved := v\<rparr>)"

definition my_atomic_store32 :: "buf_tmp_buffer_t \<Rightarrow> 32 word \<Rightarrow> buf_tmp_buffer_t" where
  "my_atomic_store32 slot v = slot\<lparr>reserved := v\<rparr>"

text \<open>\<open>true\<close> and \<open>false\<close> are 1 and 0 as \<open>int32\<close>; \<open>!x\<close> holds when \<open>x\<close> is 0.\<close>

definition release :: "buf_tmp_buffer_t \<Rightarrow> buf_tmp_buffer_t" where
  "release slot = my_atomic_store32 slot 0"

definition acquire :: "buf_tmp_buffer_t \<Rightarrow> bool \<times> buf_tmp_buffer_t" where
  "acquire slot = (let (old, slot1) = my_atomic_fas32 slot 1 in (old = 0, slot1))"

section \<open>The page descriptors of the buffer pool\<close>

text \<open>
  The states of a control block are the enumeration \<open>buf_page_state\<close> of buf0buf.h.
\<close>

datatype buf_page_state =
    BUF_BLOCK_POOL_WATCH | BUF_BLOCK_ZIP_PAGE | BUF_BLOCK_ZIP_DIRTY | BUF_BLOCK_NOT_USED
  | BUF_BLOCK_READY_FOR_USE | BUF_BLOCK_FILE_PAGE | BUF_BLOCK_MEMORY | BUF_BLOCK_REMOVE_HASH

text \<open>
  Modelled from the spec: the functions that change the state of a control block, that
  link it into the free list and the flush list and that read, write and evict pages
  (buf0buf.cc, buf0flu.cc, buf0lru.cc) are not part of the sources at hand; buf0buf.h
  holds their declarations only. The descriptor, the pool and the operations below
  follow the spec: the descriptor of section 3 with its \<open>state\<close>, \<open>io_state\<close>,
  \<open>pin_count\<close> and the two LSNs; a pool that owns the descriptors by index, with a
  free list and a flush list of indices; and the operations of sections 2, 4.E, 4.F
  and 4.G:
  \<^item> \<open>Allocate\<close>: the miss path and \<open>create\<close> allocate a free descriptor from the
    free list, which leaves it \<open>READY_FOR_USE\<close>;
  \<^item> \<open>Read_start\<close>, \<open>Read_done\<close>, \<open>Read_failed\<close>: the miss path inserts the
    allocated descriptor with \<open>io_state = READING\<close>; on completion it sets
    \<open>io_state = NONE\<close> and returns the page pinned; on an I/O or checksum failure
    the descriptor is marked as in error, which ends the read, and is then unlinked
    and freed, which is \<open>Evict\<close>;
  \<^item> \<open>Create\<close>: a file page that is not read from disk, clean, at
    \<open>newest_modification_lsn = 0\<close>, returned pinned;
  \<^item> \<open>Use_as_memory\<close>, \<open>Free_memory\<close>: the non-file state \<open>MEMORY\<close>, private to
    the allocating thread until released;
  \<^item> \<open>Get_hit\<close>, \<open>Release\<close>: a hit pins the page, release decrements the pin
    count;
  \<^item> \<open>Modify\<close>: a mutation bumps the newest LSN and links the descriptor into the
    flush list when it was clean;
  \<^item> \<open>Write_start\<close>, \<open>Write_done\<close>: the flusher writes a page of the flush list;
    on completion \<open>oldest_modification_lsn = 0\<close> and the descriptor leaves the flush
    list;
  \<^item> \<open>Evict\<close>: permitted iff \<open>pin_count = 0\<close>, \<open>io_state = NONE\<close> and
    \<open>oldest_modification_lsn = 0\<close>.
  Where buf0buf.h says more than the spec, the model follows the header. Its
  consistency conditions put a block whose read is pending in state \<open>FILE_PAGE\<close>
  (a file page is x-locked iff \<open>io_fix = BUF_IO_READ\<close>), so \<open>Read_start\<close> makes the
  descriptor a file page under \<open>IO_READING\<close>, and a read that failed leaves a clean,
  unpinned file page that goes back to the free list as any other does.
  The spec describes no operation that creates or changes a compressed-only
  (\<open>ZIP\<close>) descriptor, a watch sentinel or a descriptor in \<open>REMOVE_HASH\<close>, so the model
  has none. An operation whose precondition fails answers \<open>None\<close>.
\<close>

datatype io_state = IO_NONE | IO_READING | IO_WRITING | IO_PINNED_NO_IO

record descriptor =
  state :: buf_page_state
  io_state :: io_state
  pin_count :: nat
  newest_modification_lsn :: nat
  oldest_modification_lsn :: nat

record pool =
  descriptors :: "descriptor list"
  free_list :: "nat list"
  flush_list :: "nat list"

definition free_descriptor :: descriptor where
  "free_descriptor = \<lparr>state = BUF_BLOCK_NOT_USED, io_state = IO_NONE, pin_count = 0,
     newest_modification_lsn = 0, oldest_modification_lsn = 0\<rparr>"

definition pool_init :: "nat \<Rightarrow> pool" where
  "pool_init n = \<lparr>descriptors = replicate n free_descriptor, free_list = [0..<n], flush_list = []\<rparr>"

datatype pool_op =
    Allocate nat
  | Read_start nat
  | Read_done nat
  | Read_failed nat
  | Create nat
  | Use_as_memory nat
  | Free_memory nat
  | Get_hit nat
  | Release nat
  | Modify nat nat
  | Write_start nat
  | Write_done nat
  | Evict nat

definition set_descriptor :: "pool \<Rightarrow> nat \<Rightarrow> descriptor \<Rightarrow> pool" where
  "set_descriptor p d x = p\<lparr>descriptors := (descriptors p)[d := x]\<rparr>"

fun pool_apply :: "pool \<Rightarrow> pool_op \<Rightarrow> pool option" where
  "pool_apply p (Allocate d) =
     (let x = descriptors p ! d in
      if d < length (descriptors p) \<and> d \<in> set (free_list p) \<and> state x = BUF_BLOCK_NOT_USED
      then Some ((set_descriptor p d (x\<lparr>state := BUF_BLOCK_READY_FOR_USE\<rparr>))
                   \<lparr>free_list := removeAll d (free_list p)\<rparr>)
      else None)"
| "pool_apply p (Read_start d) =
     (let x = descriptors p ! d in
      if d < length (descriptors p) \<and> state x = BUF_BLOCK_READY_FOR_USE \<and> io_state x = IO_NONE
      then Some (set_descriptor p d (x\<lparr>state := BUF_BLOCK_FILE_PAGE, io_state := IO_READING\<rparr>))
      else None)"
| "pool_apply p (Read_done d) =
     (let x = descriptors p ! d in
      if d < length (descriptors p) \<and> state x = BUF_BLOCK_FILE_PAGE \<and> io_state x = IO_READING
      then Some (set_descriptor p d (x\<lparr>io_state := IO_NONE, pin_count := pin_count x + 1\<rparr>))
      else None)"
| "pool_apply p (Read_failed d) =
     (let x = descriptors p ! d in
      if d < length (descriptors p) \<and> state x = BUF_BLOCK_FILE_PAGE \<and> io_state x = IO_READING
      then Some (set_descriptor p d (x\<lparr>io_state := IO_NONE\<rparr>))
      else None)"
| "pool_apply p (Create d) =
     (let x = descriptors p ! d in
      if d < length (descriptors p) \<and> state x = BUF_BLOCK_READY_FOR_USE \<and> io_state x = IO_NONE
      then Some (set_descriptor p d
                   (x\<lparr>state := BUF_BLOCK_FILE_PAGE, newest_modification_lsn := 0,
                      pin_count := pin_count x + 1\<rparr>))
      else None)"
| "pool_apply p (Use_as_memory d) =
     (let x = descriptors p ! d in
      if d < length (descriptors p) \<and> state x = BUF_BLOCK_READY_FOR_USE \<and> io_state x = IO_NONE
      then Some (set_descriptor p d (x\<lparr>state := BUF_BLOCK_MEMORY\<rparr>))
      else None)"
| "pool_apply p (Free_memory d) =
     (let x = descriptors p ! d in
      if d < length (descriptors p) \<and> state x = BUF_BLOCK_MEMORY
      then Some ((set_descriptor p d (x\<lparr>state := BUF_BLOCK_NOT_USED\<rparr>))
                   \<lparr>free_list := d # free_list p\<rparr>)
      else None)"
| "pool_apply p (Get_hit d) =
     (let x = descriptors p ! d in
      if d < length (descriptors p) \<and> state x = BUF_BLOCK_FILE_PAGE
      then Some (set_descriptor p d (x\<lparr>pin_count := pin_count x + 1\<rparr>))
      else None)"
| "pool_apply p (Release d) =
     (let x = descriptors p ! d in
      if d < length (descriptors p) \<and> 0 < pin_count x
      then Some (set_descriptor p d (x\<lparr>pin_count := pin_count x - 1\<rparr>))
      else None)"
| "pool_apply p (Modify d lsn) =
     (let x = descriptors p ! d in
      if d < length (descriptors p) \<and> state x = BUF_BLOCK_FILE_PAGE \<and> 0 < pin_count x \<and> 0 < lsn
      then (if oldest_modification_lsn x = 0
            then Some ((set_descriptor p d
                          (x\<lparr>newest_modification_lsn := lsn, oldest_modification_lsn := lsn\<rparr>))
                         \<lparr>flush_list := d # flush_list p\<rparr>)
            else Some (set_descriptor p d (x\<lparr>newest_modification_lsn := lsn\<rparr>)))
      else None)"
| "pool_apply p (Write_start d) =
     (let x = descriptors p ! d in
      if d < length (descriptors p) \<and> d \<in> set (flush_list p) \<and> io_state x = IO_NONE
      then Some (set_descriptor p d (x\<lparr>io_state := IO_WRITING\<rparr>))
      else None)"
| "pool_apply p (Write_done d) =
     (let x = descriptors p ! d in
      if d < length (descriptors p) \<and> io_state x = IO_WRITING
      then Some ((set_descriptor p d (x\<lparr>io_state := IO_NONE, oldest_modification_lsn := 0\<rparr>))
                   \<lparr>flush_list := removeAll d (flush_list p)\<rparr>)
      else None)"
| "pool_apply p (Evict d) =
     (let x = descriptors p ! d in
      if d < length (descriptors p) \<and> state x = BUF_BLOCK_FILE_PAGE \<and> pin_count x = 0
         \<and> io_state x = IO_NONE \<and> oldest_modification_lsn x = 0
      then Some ((set_descriptor p d (x\<lparr>state := BUF_BLOCK_NOT_USED\<rparr>))
                   \<lparr>free_list := d # free_list p\<rparr>)
      else None)"

fun pool_run :: "pool \<Rightarrow> pool_op list \<Rightarrow> pool option" where
  "pool_run p [] = Some p"
| "pool_run p (op # ops) = (case pool_apply p op of None \<Rightarrow> None | Some p' \<Rightarrow> pool_run p' ops)"

section \<open>Properties: definitions\<close>

subsection \<open>The wait array\<close>

text \<open>
  The number of cells in use, and the invariant of an array: the cell vector has
  \<open>n_cells\<close> cells and \<open>n_reserved\<close> counts the cells in use.
\<close>

definition count_reserved :: "sync_array_t \<Rightarrow> nat" where
  "count_reserved arr = length (filter (\<lambda>cell. wait_object cell \<noteq> NULL) (array arr))"

definition sync_array_inv :: "sync_array_t \<Rightarrow> bool" where
  "sync_array_inv arr \<longleftrightarrow>
     length (array arr) = unat (n_cells arr) \<and> unat (n_reserved arr) = count_reserved arr"

text \<open>
  The arrays that the operations of the wait array produce from a created array.
  Each rule is one operation that runs its critical section to the end, on any memory
  and for any calling thread; the first part of \<open>sync_array_wait_event\<close> is a step
  of its own, because other threads run while the caller sleeps.
\<close>

inductive sync_array_reachable :: "sync_array_t \<Rightarrow> bool" where
  created: "sync_array_create n = Inr arr \<Longrightarrow> sync_array_reachable arr"
| reserved: "sync_array_reachable arr \<Longrightarrow>
     sync_array_reserve_cell self now arr heap object type fl ln = Inr (r, arr', heap') \<Longrightarrow>
     sync_array_reachable arr'"
| waiting: "sync_array_reachable arr \<Longrightarrow>
     sync_array_wait_event_enter debug self arr heap index = Inr (arr', event, count) \<Longrightarrow>
     sync_array_reachable arr'"
| waited: "sync_array_reachable arr \<Longrightarrow>
     sync_array_wait_event debug self arr heap woken index = Inr arr' \<Longrightarrow>
     sync_array_reachable arr'"
| freed: "sync_array_reachable arr \<Longrightarrow>
     sync_array_free_cell arr index = Inr arr' \<Longrightarrow>
     sync_array_reachable arr'"
| swept: "sync_array_reachable arr \<Longrightarrow>
     sync_array_wake_threads_if_sema_free_low arr heap = Inr (arr', heap') \<Longrightarrow>
     sync_array_reachable arr'"
| validated: "sync_array_reachable arr \<Longrightarrow>
     sync_array_validate arr = Inr arr' \<Longrightarrow>
     sync_array_reachable arr'"

text \<open>What a successful reservation writes into the cell it takes.\<close>

definition reserved_cell ::
  "os_thread_id_t \<Rightarrow> time_t \<Rightarrow> sync_heap \<Rightarrow> addr \<Rightarrow> lock_type \<Rightarrow> string \<Rightarrow> ulint \<Rightarrow> sync_cell_t
   \<Rightarrow> sync_cell_t" where
  "reserved_cell self now heap object type fl ln cell =
     (let cell1 = cell\<lparr>waiting := False, wait_object := object\<rparr>;
          cell2 = (if type = SYNC_MUTEX then cell1\<lparr>old_wait_mutex := object\<rparr>
                   else cell1\<lparr>old_wait_rw_lock := object\<rparr>);
          cell3 = cell2\<lparr>request_type := type, cell_file := fl, cell_line := ln\<rparr>
      in cell3\<lparr>signal_count := ev_signal_count (event_at heap (sync_cell_get_event heap cell3)),
               reservation_time := now, thread := self\<rparr>)"

text \<open>
  The release predicate as the specification words it, by request type, and the effect
  of the sweep on one cell.
\<close>

definition release_predicate :: "sync_heap \<Rightarrow> sync_cell_t \<Rightarrow> bool" where
  "release_predicate heap cell =
     (case request_type cell of
        SYNC_MUTEX \<Rightarrow> mutex_lock_word (mutex_at heap (wait_object cell)) = 0
      | RW_LOCK_SHARED \<Rightarrow> rw_lock_word (rw_lock_at heap (wait_object cell)) > 0
      | RW_LOCK_EX \<Rightarrow> rw_lock_word (rw_lock_at heap (wait_object cell)) > 0
      | RW_LOCK_WAIT_EX \<Rightarrow> rw_lock_word (rw_lock_at heap (wait_object cell)) = 0
      | RW_LOCK_NOT_LOCKED \<Rightarrow> False)"

definition sweep_cell :: "sync_heap \<Rightarrow> sync_cell_t \<Rightarrow> sync_heap" where
  "sweep_cell heap cell =
     (if wait_object cell \<noteq> NULL \<and> sync_arr_cell_can_wake_up heap cell
      then set_event_at heap (sync_cell_get_event heap cell) else heap)"

text \<open>
  The event a waiter sleeps on, read from memory by request type: a mutex has one
  event; a rw-lock has one event for shared and exclusive requests and another,
  \<open>wait_ex_event\<close>, for the writer that waits for the readers to leave.
\<close>

definition waited_event :: "sync_heap \<Rightarrow> sync_cell_t \<Rightarrow> addr" where
  "waited_event heap cell =
     (case request_type cell of
        SYNC_MUTEX \<Rightarrow> mutex_event (mutex_at heap (wait_object cell))
      | RW_LOCK_SHARED \<Rightarrow> rw_event (rw_lock_at heap (wait_object cell))
      | RW_LOCK_EX \<Rightarrow> rw_event (rw_lock_at heap (wait_object cell))
      | RW_LOCK_WAIT_EX \<Rightarrow> rw_wait_ex_event (rw_lock_at heap (wait_object cell))
      | RW_LOCK_NOT_LOCKED \<Rightarrow> rw_event (rw_lock_at heap (wait_object cell)))"

text \<open>
  The wait-for relation that the deadlock search explores. \<open>followed_threads\<close> lists
  the threads the search goes on with from a cell: none unless the cell is waiting;
  the owner of a locked mutex; the holders of a rw-lock that are selected by
  \<open>follows\<close> and have \<open>pass = 0\<close>. \<open>holder_follows\<close> selects, for a shared request,
  the writers and waiting writers, and for an exclusive request every reader and the
  writers and waiting writers of other threads. \<open>claimed_holder_follows\<close> is the
  selection in the words of the specification: for an exclusive request, every
  holder, reader or writer, whose thread differs from the requester. \<open>wait_cycle\<close>
  holds when following holders to their cells leads from a cell back to \<open>start\<close>.
\<close>

definition holder_follows :: "sync_cell_t \<Rightarrow> rw_lock_debug_t \<Rightarrow> bool" where
  "holder_follows cell debug \<longleftrightarrow>
     (if request_type cell = RW_LOCK_SHARED
      then debug_lock_type debug = RW_LOCK_EX \<or> debug_lock_type debug = RW_LOCK_WAIT_EX
      else debug_lock_type debug = RW_LOCK_SHARED
           \<or> ((debug_lock_type debug = RW_LOCK_EX \<or> debug_lock_type debug = RW_LOCK_WAIT_EX)
               \<and> debug_thread_id debug \<noteq> thread cell))"

definition claimed_holder_follows :: "sync_cell_t \<Rightarrow> rw_lock_debug_t \<Rightarrow> bool" where
  "claimed_holder_follows cell debug \<longleftrightarrow>
     (if request_type cell = RW_LOCK_SHARED
      then debug_lock_type debug = RW_LOCK_EX \<or> debug_lock_type debug = RW_LOCK_WAIT_EX
      else (debug_lock_type debug = RW_LOCK_SHARED \<or> debug_lock_type debug = RW_LOCK_EX
            \<or> debug_lock_type debug = RW_LOCK_WAIT_EX)
           \<and> debug_thread_id debug \<noteq> thread cell)"

definition followed_threads ::
  "(sync_cell_t \<Rightarrow> rw_lock_debug_t \<Rightarrow> bool) \<Rightarrow> sync_heap \<Rightarrow> sync_cell_t \<Rightarrow> os_thread_id_t list" where
  "followed_threads follows heap cell =
     (if \<not> waiting cell then []
      else if request_type cell = SYNC_MUTEX
      then (if mutex_lock_word (mutex_at heap (wait_object cell)) \<noteq> 0
            then [mutex_thread_id (mutex_at heap (wait_object cell))] else [])
      else if request_type cell = RW_LOCK_NOT_LOCKED then []
      else map debug_thread_id
             (filter (\<lambda>debug. follows cell debug \<and> debug_pass debug = 0)
                (debug_list (rw_lock_at heap (wait_object cell)))))"

inductive wait_cycle ::
  "(sync_cell_t \<Rightarrow> os_thread_id_t list) \<Rightarrow> sync_array_t \<Rightarrow> ulint \<Rightarrow> ulint \<Rightarrow> bool"
  for holders :: "sync_cell_t \<Rightarrow> os_thread_id_t list" and arr :: sync_array_t and start :: ulint where
  closes: "thr \<in> set (holders (array arr ! unat cell)) \<Longrightarrow> sync_array_find_thread arr thr = Some start \<Longrightarrow>
         wait_cycle holders arr start cell"
| extends: "thr \<in> set (holders (array arr ! unat cell)) \<Longrightarrow> sync_array_find_thread arr thr = Some new_cell \<Longrightarrow>
       new_cell \<noteq> start \<Longrightarrow> wait_cycle holders arr start new_cell \<Longrightarrow>
       wait_cycle holders arr start cell"

definition step_finds :: "sync_array_t \<Rightarrow> sync_heap \<Rightarrow> ulint \<Rightarrow> os_thread_id_t \<Rightarrow> bool" where
  "step_finds arr heap start thr \<longleftrightarrow>
     (\<exists>c. sync_array_find_thread arr thr = Some c \<and>
          (c = start \<or> wait_cycle (followed_threads holder_follows heap) arr start c))"

subsection \<open>The buffer pool\<close>

inductive pool_reachable :: "pool \<Rightarrow> bool" where
  init: "pool_reachable (pool_init n)"
| step: "pool_reachable p \<Longrightarrow> pool_apply p op = Some p' \<Longrightarrow> pool_reachable p'"


definition pool_inv :: "pool \<Rightarrow> bool" where
  "pool_inv p \<longleftrightarrow>
     (\<forall>d < length (descriptors p).
        (d \<in> set (flush_list p)) = (0 < oldest_modification_lsn (descriptors p ! d))
        \<and> (0 < oldest_modification_lsn (descriptors p ! d) \<longrightarrow> state (descriptors p ! d) = BUF_BLOCK_FILE_PAGE)
        \<and> state (descriptors p ! d) \<in>
            {BUF_BLOCK_NOT_USED, BUF_BLOCK_READY_FOR_USE, BUF_BLOCK_FILE_PAGE, BUF_BLOCK_MEMORY}
        \<and> (io_state (descriptors p ! d) = IO_WRITING \<longrightarrow> state (descriptors p ! d) = BUF_BLOCK_FILE_PAGE))"


subsection \<open>States used as examples\<close>

definition test_heap :: sync_heap where
  "test_heap = \<lparr>mutex_at = (\<lambda>a. \<lparr>mutex_event = 10, mutex_lock_word = 1, mutex_thread_id = 2\<rparr>),
                 rw_lock_at = (\<lambda>a. \<lparr>rw_lock_word = 0, rw_event = 11, rw_wait_ex_event = 12, debug_list = []\<rparr>),
                 event_at = (\<lambda>a. \<lparr>is_set = True, ev_signal_count = 3\<rparr>)\<rparr>"

definition mutex_cell :: "addr \<Rightarrow> os_thread_id_t \<Rightarrow> sync_cell_t" where
  "mutex_cell object thr = \<lparr>wait_object = object, old_wait_mutex = object, old_wait_rw_lock = NULL,
     request_type = SYNC_MUTEX, cell_file = [], cell_line = 0, thread = thr, waiting = False,
     signal_count = 3, reservation_time = 0\<rparr>"

definition test_array :: "sync_cell_t list \<Rightarrow> ulint \<Rightarrow> sync_array_t" where
  "test_array cells n = \<lparr>n_reserved = n, n_cells = of_nat (length cells), array = cells,
     os_mutex = False, res_count = 0\<rparr>"

definition held_array :: sync_array_t where
  "held_array = \<lparr>n_reserved = 1, n_cells = 1, array = [mutex_cell 7 1], os_mutex = True,
                   res_count = 1\<rparr>"

definition sweep_heap :: sync_heap where
  "sweep_heap =
     \<lparr>mutex_at = (\<lambda>a. \<lparr>mutex_event = 10, mutex_lock_word = 0, mutex_thread_id = 2\<rparr>),
      rw_lock_at = (\<lambda>a. if a = 8
         then \<lparr>rw_lock_word = 5, rw_event = 21, rw_wait_ex_event = 22, debug_list = []\<rparr>
         else \<lparr>rw_lock_word = 1, rw_event = 31, rw_wait_ex_event = 32, debug_list = []\<rparr>),
      event_at = (\<lambda>a. \<lparr>is_set = False, ev_signal_count = 3\<rparr>)\<rparr>"

definition waiting_cell :: "addr \<Rightarrow> lock_type \<Rightarrow> os_thread_id_t \<Rightarrow> sync_cell_t" where
  "waiting_cell object type thr = \<lparr>wait_object = object, old_wait_mutex = NULL, old_wait_rw_lock = object,
     request_type = type, cell_file = [], cell_line = 0, thread = thr, waiting = True,
     signal_count = 3, reservation_time = 0\<rparr>"

definition held_heap :: "os_thread_id_t \<Rightarrow> rw_lock_debug_t list \<Rightarrow> sync_heap" where
  "held_heap owner holders =
     \<lparr>mutex_at = (\<lambda>a. \<lparr>mutex_event = 10, mutex_lock_word = 1, mutex_thread_id = owner\<rparr>),
      rw_lock_at = (\<lambda>a. \<lparr>rw_lock_word = 0, rw_event = 11, rw_wait_ex_event = 12, debug_list = holders\<rparr>),
      event_at = (\<lambda>a. \<lparr>is_set = True, ev_signal_count = 3\<rparr>)\<rparr>"

definition s_holder :: "os_thread_id_t \<Rightarrow> rw_lock_debug_t" where
  "s_holder thr = \<lparr>debug_thread_id = thr, debug_pass = 0, debug_lock_type = RW_LOCK_SHARED\<rparr>"

definition dirty_pool :: pool where
  "dirty_pool = \<lparr>descriptors =
       [\<lparr>state = BUF_BLOCK_FILE_PAGE, io_state = IO_NONE, pin_count = 1,
         newest_modification_lsn = 100, oldest_modification_lsn = 100\<rparr>,
        free_descriptor],
     free_list = [1], flush_list = [0]\<rparr>"


section \<open>Properties: proofs\<close>

subsection \<open>The scan for a free cell\<close>

lemma unat_inc_less: "(i::ulint) < n \<Longrightarrow> unat (i + 1) = Suc (unat i)"
proof -
  assume a: "i < n"
  have b: "unat i < unat n" using a by (simp add: word_less_nat_alt)
  have c: "unat n < 2 ^ 64" using unsigned_less [of n] by simp
  have "unat i + 1 < 2 ^ 64" using b c by linarith
  then show ?thesis by (simp add: unat_word_ariths)
qed

lemma reserve_loop_Some:
  "reserve_loop arr i = Some j \<Longrightarrow>
     i \<le> j \<and> j < n_cells arr \<and> wait_object (array arr ! unat j) = NULL \<and>
     (\<forall>k. i \<le> k \<and> k < j \<longrightarrow> wait_object (array arr ! unat k) \<noteq> NULL)"
proof (induction arr i rule: reserve_loop.induct)
  case (1 arr i)
  show ?case
  proof (cases "i < n_cells arr")
    case False
    with "1.prems" show ?thesis by (simp add: reserve_loop.simps [of arr i])
  next
    case lt: True
    show ?thesis
    proof (cases "wait_object (array arr ! unat i) = NULL")
      case True
      with lt "1.prems" have "j = i" by (simp add: reserve_loop.simps [of arr i])
      with lt True show ?thesis by auto
    next
      case False
      with lt "1.prems" have r: "reserve_loop arr (i + 1) = Some j"
        by (simp add: reserve_loop.simps [of arr i])
      from "1.IH" [OF lt False r]
      have ih: "i + 1 \<le> j" "j < n_cells arr" "wait_object (array arr ! unat j) = NULL"
        "\<forall>k. i + 1 \<le> k \<and> k < j \<longrightarrow> wait_object (array arr ! unat k) \<noteq> NULL"
        by auto
      have le: "i \<le> i + 1" using unat_inc_less [OF lt] by (simp add: word_le_nat_alt)
      have "\<And>k. i \<le> k \<Longrightarrow> k < j \<Longrightarrow> wait_object (array arr ! unat k) \<noteq> NULL"
      proof -
        fix k assume "i \<le> k" "k < j"
        show "wait_object (array arr ! unat k) \<noteq> NULL"
        proof (cases "k = i")
          case True with False show ?thesis by simp
        next
          case kf: False
          with \<open>i \<le> k\<close> have "i < k" by simp
          then have "i + 1 \<le> k" by (rule inc_le)
          with ih(4) \<open>k < j\<close> show ?thesis by blast
        qed
      qed
      with ih le show ?thesis by auto
    qed
  qed
qed


lemma reserve_loop_None:
  "reserve_loop arr i = None \<Longrightarrow>
     (\<forall>k. i \<le> k \<and> k < n_cells arr \<longrightarrow> wait_object (array arr ! unat k) \<noteq> NULL)"
proof (induction arr i rule: reserve_loop.induct)
  case (1 arr i)
  show ?case
  proof (cases "i < n_cells arr")
    case False
    then show ?thesis by auto
  next
    case lt: True
    from lt "1.prems" have nf: "wait_object (array arr ! unat i) \<noteq> NULL"
      by (auto simp: reserve_loop.simps [of arr i] split: if_splits)
    with lt "1.prems" have r: "reserve_loop arr (i + 1) = None"
      by (simp add: reserve_loop.simps [of arr i])
    from "1.IH" [OF lt nf r]
    have ih: "\<forall>k. i + 1 \<le> k \<and> k < n_cells arr \<longrightarrow> wait_object (array arr ! unat k) \<noteq> NULL" .
    show ?thesis
    proof (intro allI impI)
      fix k assume k: "i \<le> k \<and> k < n_cells arr"
      show "wait_object (array arr ! unat k) \<noteq> NULL"
      proof (cases "k = i")
        case True with nf show ?thesis by simp
      next
        case False
        with k have "i < k" by auto
        then have "i + 1 \<le> k" by (rule inc_le)
        with ih k show ?thesis by blast
      qed
    qed
  qed
qed

lemma reserve_loop_arr_cong:
  "n_cells a = n_cells b \<Longrightarrow> array a = array b \<Longrightarrow> reserve_loop a i = reserve_loop b i"
proof (induction a i rule: reserve_loop.induct)
  case (1 arr i)
  show ?case
  proof (cases "i < n_cells arr \<and> wait_object (array arr ! unat i) \<noteq> NULL")
    case True
    then have "reserve_loop arr (i + 1) = reserve_loop b (i + 1)"
      using "1.IH" "1.prems" by simp
    then show ?thesis
      using True "1.prems" by (simp add: reserve_loop.simps [of arr i] reserve_loop.simps [of b i])
  next
    case False
    then show ?thesis
      using "1.prems" by (auto simp: reserve_loop.simps [of arr i] reserve_loop.simps [of b i])
  qed
qed


lemma reserve_loop_entered:
  "reserve_loop (arr\<lparr>os_mutex := m, res_count := r\<rparr>) i = reserve_loop arr i"
  by (rule reserve_loop_arr_cong) simp_all

text \<open>The outcome of a call of \<open>sync_array_reserve_cell\<close> in closed form.\<close>

lemma reserve_cell_None:
  assumes "object \<noteq> NULL" "\<not> os_mutex arr" "reserve_loop arr 0 = None"
  shows "sync_array_reserve_cell self now arr heap object type fl ln =
         Inr (None, arr\<lparr>os_mutex := True, res_count := res_count arr + 1\<rparr>, heap)"
  using assms
  by (simp add: sync_array_reserve_cell_def sync_array_enter_def reserve_loop_entered)

lemma reserve_cell_Some:
  assumes "object \<noteq> NULL" "\<not> os_mutex arr" "reserve_loop arr 0 = Some i"
  shows "\<exists>cell' ev. sync_array_reserve_cell self now arr heap object type fl ln =
         Inr (Some i,
              arr\<lparr>res_count := res_count arr + 1, n_reserved := n_reserved arr + 1,
                  os_mutex := False, array := (array arr)[unat i := cell']\<rparr>,
              heap\<lparr>event_at := (event_at heap)(ev := (event_at heap ev)\<lparr>is_set := False\<rparr>)\<rparr>)
         \<and> cell' = reserved_cell self now heap object type fl ln (array arr ! unat i)
         \<and> ev = sync_cell_get_event heap cell'"
  using assms
  by (simp add: sync_array_reserve_cell_def sync_array_enter_def reserve_loop_entered
        sync_array_exit_def os_event_reset_def reserved_cell_def sync_cell_get_event_def Let_def)

lemma reserve_cell_result:
  assumes "sync_array_reserve_cell self now arr heap object type fl ln = Inr (r, arr', heap')"
  shows "r = reserve_loop arr 0"
proof -
  have a: "object \<noteq> NULL" "\<not> os_mutex arr"
    using assms by (auto simp: sync_array_reserve_cell_def sync_array_enter_def split: if_splits)
  show ?thesis
  proof (cases "reserve_loop arr 0")
    case None
    from reserve_cell_None [OF a None] assms show ?thesis using None by simp
  next
    case (Some i)
    from reserve_cell_Some [OF a Some, of self now heap type fl ln] assms
    show ?thesis using Some by auto
  qed
qed

lemma test_array_inv: "sync_array_inv (test_array [mutex_cell 7 1, zero_cell] 1)"
  by (simp add: sync_array_inv_def count_reserved_def test_array_def mutex_cell_def zero_cell_def NULL_def)

lemma full_array_inv: "sync_array_inv (test_array [mutex_cell 7 1] 1)"
  by (simp add: sync_array_inv_def count_reserved_def test_array_def mutex_cell_def NULL_def)

lemma created_array: "sync_array_create 2 = Inr (test_array [zero_cell, zero_cell] 0)"
  by code_simp

lemma first_reservation:
  "sync_array_reserve_cell 1 0 (test_array [zero_cell, zero_cell] 0) test_heap 7 SYNC_MUTEX [] 0
   = Inr (Some 0, (test_array [mutex_cell 7 1, zero_cell] 1)\<lparr>res_count := 1\<rparr>,
          test_heap\<lparr>event_at := (event_at test_heap)(10 := \<lparr>is_set = False, ev_signal_count = 3\<rparr>)\<rparr>)"
  by (simp add: sync_array_reserve_cell_def sync_array_enter_def sync_array_exit_def reserve_loop.simps
       test_array_def test_heap_def mutex_cell_def zero_cell_def NULL_def Let_def
       sync_cell_get_event_def os_event_reset_def)

lemma second_reservation:
  "sync_array_reserve_cell 2 0 (test_array [mutex_cell 7 1, zero_cell] 1) test_heap 7 SYNC_MUTEX [] 0
   = Inr (Some 1, (test_array [mutex_cell 7 1, mutex_cell 7 2] 2)\<lparr>res_count := 1\<rparr>,
          test_heap\<lparr>event_at := (event_at test_heap)(10 := \<lparr>is_set = False, ev_signal_count = 3\<rparr>)\<rparr>)"
  by (simp add: sync_array_reserve_cell_def sync_array_enter_def sync_array_exit_def reserve_loop.simps
       test_array_def test_heap_def mutex_cell_def zero_cell_def NULL_def Let_def
       sync_cell_get_event_def os_event_reset_def)

text \<open>
  Claim C10. When \<open>sync_array_reserve_cell\<close> succeeds, the index it returns is the
  smallest index of a free cell at entry: the cell at the returned index had
  \<open>wait_object = NULL\<close>, and every cell at a smaller index was occupied.
\<close>

theorem reserve_cell_first_free:
  assumes "sync_array_reserve_cell self now arr heap object type fl ln = Inr (Some i, arr', heap')"
  shows "i < n_cells arr \<and> wait_object (array arr ! unat i) = NULL \<and>
         (\<forall>j. j < i \<longrightarrow> wait_object (array arr ! unat j) \<noteq> NULL)"
proof -
  have "reserve_loop arr 0 = Some i"
    using reserve_cell_result [OF assms] by simp
  from reserve_loop_Some [OF this] show ?thesis by simp
qed

theorem reserve_cell_first_free_witness:
  "sync_array_reserve_cell 2 0 (test_array [mutex_cell 7 1, zero_cell] 1) test_heap 7 SYNC_MUTEX [] 0
   = Inr (Some 1, (test_array [mutex_cell 7 1, mutex_cell 7 2] 2)\<lparr>res_count := 1\<rparr>,
          test_heap\<lparr>event_at := (event_at test_heap)(10 := \<lparr>is_set = False, ev_signal_count = 3\<rparr>)\<rparr>)
   \<and> wait_object (array (test_array [mutex_cell 7 1, zero_cell] 1) ! unat (1 :: ulint)) = NULL
   \<and> wait_object (array (test_array [mutex_cell 7 1, zero_cell] 1) ! unat (0 :: ulint)) \<noteq> NULL"
proof -
  have "(0 :: ulint) < 1" by simp
  with reserve_cell_first_free [OF second_reservation] second_reservation show ?thesis by blast
qed

subsection \<open>The count of reserved cells\<close>

lemma filter_update_count:
  "i < length xs \<Longrightarrow>
     length (filter P (xs[i := x])) + (if P (xs ! i) then 1 else 0)
     = length (filter P xs) + (if P x then 1 else 0)"
proof (induction xs arbitrary: i)
  case Nil
  then show ?case by simp
next
  case (Cons a xs)
  show ?case
  proof (cases i)
    case 0
    then show ?thesis by simp
  next
    case (Suc k)
    with Cons.prems have "k < length xs" by simp
    from Cons.IH [OF this] Suc show ?thesis by simp
  qed
qed

lemma count_reserved_le: "count_reserved arr \<le> length (array arr)"
  by (simp add: count_reserved_def)

lemma validate_loop_count:
  "length (array arr) = unat (n_cells arr) \<Longrightarrow>
   validate_loop arr i count =
     count + of_nat (length (filter (\<lambda>cell. wait_object cell \<noteq> NULL) (drop (unat i) (array arr))))"
proof (induction arr i count rule: validate_loop.induct)
  case (1 arr i count)
  note len = "1.prems"
  show ?case
  proof (cases "i < n_cells arr")
    case False
    then have "length (array arr) \<le> unat i" using len by (simp add: word_less_nat_alt)
    then have "drop (unat i) (array arr) = []" by simp
    then show ?thesis using False by (simp add: validate_loop.simps [of arr i count])
  next
    case True
    then have lt: "unat i < length (array arr)" using len by (simp add: word_less_nat_alt)
    have suc: "unat (i + 1) = Suc (unat i)" by (rule unat_inc_less [OF True])
    have d: "drop (unat i) (array arr) = array arr ! unat i # drop (Suc (unat i)) (array arr)"
      using lt by (simp add: Cons_nth_drop_Suc)
    show ?thesis
      using True "1.IH" [OF True len] suc
      by (simp add: validate_loop.simps [of arr i count] d)
  qed
qed

lemma validate_ok:
  assumes "sync_array_inv arr" "\<not> os_mutex arr"
  shows "sync_array_validate arr = Inr arr"
proof -
  let ?a = "arr\<lparr>os_mutex := True\<rparr>"
  have len: "length (array ?a) = unat (n_cells ?a)" using assms by (simp add: sync_array_inv_def)
  have "validate_loop ?a 0 0 = of_nat (count_reserved arr)"
    using validate_loop_count [OF len, of 0 0] by (simp add: count_reserved_def)
  also have "\<dots> = n_reserved arr"
  proof -
    have "count_reserved arr = unat (n_reserved arr)" using assms by (simp add: sync_array_inv_def)
    then show ?thesis by simp
  qed
  finally have v: "validate_loop ?a 0 0 = n_reserved arr" .
  have "arr\<lparr>os_mutex := False\<rparr> = arr" using assms by simp
  then show ?thesis
    using assms v by (simp add: sync_array_validate_def sync_array_enter_def sync_array_exit_def)
qed

lemma inv_os_mutex [simp]: "sync_array_inv (arr\<lparr>os_mutex := m\<rparr>) = sync_array_inv arr"
  by (simp add: sync_array_inv_def count_reserved_def)

lemma inv_res_count [simp]: "sync_array_inv (arr\<lparr>res_count := m\<rparr>) = sync_array_inv arr"
  by (simp add: sync_array_inv_def count_reserved_def)

lemma inv_create: "sync_array_create n = Inr arr \<Longrightarrow> sync_array_inv arr"
  by (auto simp: sync_array_create_def sync_array_inv_def count_reserved_def zero_cell_def
           split: if_splits)

lemma inv_reserve_cell_at:
  assumes inv: "sync_array_inv arr" and i: "i < n_cells arr"
    and free: "wait_object (array arr ! unat i) = NULL" and c: "wait_object cell \<noteq> NULL"
  shows "sync_array_inv (arr\<lparr>n_reserved := n_reserved arr + 1, array := (array arr)[unat i := cell]\<rparr>)"
proof -
  have len: "length (array arr) = unat (n_cells arr)" and cnt: "unat (n_reserved arr) = count_reserved arr"
    using inv by (simp_all add: sync_array_inv_def)
  have lt: "unat i < length (array arr)" using i len by (simp add: word_less_nat_alt)
  let ?P = "\<lambda>cell. wait_object cell \<noteq> NULL"
  have e: "length (filter ?P ((array arr)[unat i := cell])) = Suc (count_reserved arr)"
    using filter_update_count [OF lt, of ?P cell] free c by (simp add: count_reserved_def)
  have "length (filter ?P ((array arr)[unat i := cell])) \<le> length (array arr)"
    using length_filter_le [of ?P "(array arr)[unat i := cell]"] by simp
  then have b: "Suc (unat (n_reserved arr)) \<le> unat (n_cells arr)" using e cnt len by simp
  have "unat (n_cells arr) < 2 ^ 64" using unsigned_less [of "n_cells arr"] by simp
  then have "unat (n_reserved arr) + 1 < 2 ^ 64" using b by linarith
  then have "unat (n_reserved arr + 1) = Suc (unat (n_reserved arr))"
    by (simp add: unat_word_ariths)
  then show ?thesis using e cnt len by (simp add: sync_array_inv_def count_reserved_def)
qed

lemma inv_reserve:
  assumes "sync_array_inv arr"
    and "sync_array_reserve_cell self now arr heap object type fl ln = Inr (r, arr', heap')"
  shows "sync_array_inv arr'"
proof -
  have a: "object \<noteq> NULL" "\<not> os_mutex arr"
    using assms(2) by (auto simp: sync_array_reserve_cell_def sync_array_enter_def split: if_splits)
  show ?thesis
  proof (cases "reserve_loop arr 0")
    case None
    from reserve_cell_None [OF a None, of self now heap type fl ln] assms show ?thesis by auto
  next
    case (Some i)
    from reserve_loop_Some [OF Some]
    have i: "i < n_cells arr" "wait_object (array arr ! unat i) = NULL" by auto
    from reserve_cell_Some [OF a Some, of self now heap type fl ln] assms(2)
    obtain cell' where arr': "arr' = arr\<lparr>res_count := res_count arr + 1, n_reserved := n_reserved arr + 1,
                  os_mutex := False, array := (array arr)[unat i := cell']\<rparr>"
      and cell': "cell' = reserved_cell self now heap object type fl ln (array arr ! unat i)"
      by auto
    have "wait_object cell' \<noteq> NULL" using a cell' by (simp add: reserved_cell_def Let_def)
    from inv_reserve_cell_at [OF assms(1) i this] show ?thesis
      using arr' by (simp add: sync_array_inv_def count_reserved_def)
  qed
qed

lemma inv_free_cell:
  assumes "sync_array_inv arr" and "sync_array_free_cell arr index = Inr arr'"
  shows "sync_array_inv arr'"
proof -
  have len: "length (array arr) = unat (n_cells arr)" and cnt: "unat (n_reserved arr) = count_reserved arr"
    using assms(1) by (simp_all add: sync_array_inv_def)
  let ?cell = "(array arr ! unat index)\<lparr>waiting := False, wait_object := NULL, signal_count := 0\<rparr>"
  have f: "index < n_cells arr" "wait_object (array arr ! unat index) \<noteq> NULL" "0 < n_reserved arr"
    and arr': "arr' = arr\<lparr>os_mutex := False, array := (array arr)[unat index := ?cell],
                         n_reserved := n_reserved arr - 1\<rparr>"
    using assms(2)
    by (auto simp: sync_array_free_cell_def sync_array_enter_def sync_array_get_nth_cell_def
          sync_array_exit_def Let_def split: if_splits)
  have lt: "unat index < length (array arr)" using f(1) len by (simp add: word_less_nat_alt)
  let ?P = "\<lambda>cell. wait_object cell \<noteq> NULL"
  have e: "Suc (length (filter ?P ((array arr)[unat index := ?cell]))) = count_reserved arr"
    using filter_update_count [OF lt, of ?P ?cell] f(2) by (simp add: count_reserved_def)
  have "n_reserved arr \<noteq> 0" using f(3) by auto
  then have "unat (n_reserved arr - 1) = unat (n_reserved arr) - 1" by (rule unat_minus_one)
  then show ?thesis using e cnt len arr' by (simp add: sync_array_inv_def count_reserved_def)
qed

lemma wait_event_enter_result:
  assumes "sync_array_wait_event_enter debug self arr heap index = Inr (arr', event, count)"
  shows "\<not> os_mutex arr \<and> index < n_cells arr \<and> wait_object (array arr ! unat index) \<noteq> NULL \<and>
         \<not> waiting (array arr ! unat index) \<and>
         arr' = arr\<lparr>os_mutex := False,
                    array := (array arr)[unat index := (array arr ! unat index)\<lparr>waiting := True\<rparr>]\<rparr>"
  using assms
  by (auto simp: sync_array_wait_event_enter_def sync_array_enter_def sync_array_get_nth_cell_def
        sync_array_exit_def Let_def split: if_splits sum.splits)

lemma inv_wait_event_enter:
  assumes "sync_array_inv arr"
    and "sync_array_wait_event_enter debug self arr heap index = Inr (arr', event, count)"
  shows "sync_array_inv arr'"
proof -
  have len: "length (array arr) = unat (n_cells arr)" and cnt: "unat (n_reserved arr) = count_reserved arr"
    using assms(1) by (simp_all add: sync_array_inv_def)
  note r = wait_event_enter_result [OF assms(2)]
  have lt: "unat index < length (array arr)" using r len by (simp add: word_less_nat_alt)
  let ?P = "\<lambda>cell. wait_object cell \<noteq> NULL"
  let ?cell = "(array arr ! unat index)\<lparr>waiting := True\<rparr>"
  have "length (filter ?P ((array arr)[unat index := ?cell])) = count_reserved arr"
    using filter_update_count [OF lt, of ?P ?cell] r by (simp add: count_reserved_def)
  then show ?thesis using r cnt len by (simp add: sync_array_inv_def count_reserved_def)
qed

lemma inv_wait_event:
  assumes "sync_array_inv arr"
    and "sync_array_wait_event debug self arr heap woken index = Inr arr'"
  shows "sync_array_inv arr'"
proof -
  from assms(2) obtain arr1 event count where
    e: "sync_array_wait_event_enter debug self arr heap index = Inr (arr1, event, count)"
    and f: "sync_array_free_cell arr1 index = Inr arr'"
    by (auto simp: sync_array_wait_event_def split: sum.splits if_splits)
  from inv_free_cell [OF inv_wait_event_enter [OF assms(1) e] f] show ?thesis .
qed

lemma inv_wake:
  assumes "sync_array_inv arr"
    and "sync_array_wake_threads_if_sema_free_low arr heap = Inr (arr', heap')"
  shows "sync_array_inv arr'"
  using assms
  by (auto simp: sync_array_wake_threads_if_sema_free_low_def sync_array_enter_def
        sync_array_exit_def split: if_splits sum.splits)

lemma inv_validate:
  assumes "sync_array_inv arr" and "sync_array_validate arr = Inr arr'"
  shows "sync_array_inv arr'"
  using assms
  by (auto simp: sync_array_validate_def sync_array_enter_def sync_array_exit_def
        split: if_splits)

lemma reachable_inv: "sync_array_reachable arr \<Longrightarrow> sync_array_inv arr"
proof (induction rule: sync_array_reachable.induct)
  case (created n arr)
  then show ?case by (rule inv_create)
next
  case (reserved arr self now heap object type fl ln r arr' heap')
  then show ?case by (blast intro: inv_reserve)
next
  case (waiting arr debug self heap index arr' event count)
  then show ?case by (blast intro: inv_wait_event_enter)
next
  case (waited arr debug self heap woken index arr')
  then show ?case by (blast intro: inv_wait_event)
next
  case (freed arr index arr')
  then show ?case by (blast intro: inv_free_cell)
next
  case (swept arr heap arr' heap')
  then show ?case by (blast intro: inv_wake)
next
  case (validated arr arr')
  then show ?case by (blast intro: inv_validate)
qed

lemma validate_not_failed:
  assumes "sync_array_inv arr"
  shows "sync_array_validate arr = (if os_mutex arr then Inl Blocked else Inr arr)"
proof (cases "os_mutex arr")
  case True
  then show ?thesis by (simp add: sync_array_validate_def sync_array_enter_def)
next
  case False
  with validate_ok [OF assms] show ?thesis by simp
qed

text \<open>
  Claim C1. In every array that the operations of the wait array produce, the number
  of cells whose \<open>wait_object\<close> is not \<open>NULL\<close> equals \<open>n_reserved\<close>; reserving a cell,
  waiting on a cell and freeing a cell keep it so, and the assertion of
  \<open>sync_array_validate\<close> holds: validation fails in no such array, and returns
  whenever the array mutex is free.
\<close>

theorem n_reserved_counts_reserved_cells:
  assumes "sync_array_reachable arr"
  shows "length (filter (\<lambda>cell. wait_object cell \<noteq> NULL) (array arr)) = unat (n_reserved arr)
         \<and> sync_array_validate arr = (if os_mutex arr then Inl Blocked else Inr arr)"
  using reachable_inv [OF assms] validate_not_failed [of arr]
  by (simp add: sync_array_inv_def count_reserved_def)

theorem n_reserved_counts_reserved_cells_witness:
  "length (filter (\<lambda>cell. wait_object cell \<noteq> NULL)
             (array ((test_array [mutex_cell 7 1, zero_cell] 1)\<lparr>res_count := 1\<rparr>))) = 1
   \<and> sync_array_validate ((test_array [mutex_cell 7 1, zero_cell] 1)\<lparr>res_count := 1\<rparr>)
       = Inr ((test_array [mutex_cell 7 1, zero_cell] 1)\<lparr>res_count := 1\<rparr>)"
proof -
  have "sync_array_reachable (test_array [zero_cell, zero_cell] 0)"
    by (rule sync_array_reachable.created [OF created_array])
  then have "sync_array_reachable ((test_array [mutex_cell 7 1, zero_cell] 1)\<lparr>res_count := 1\<rparr>)"
    by (rule sync_array_reachable.reserved [OF _ first_reservation])
  from n_reserved_counts_reserved_cells [OF this] show ?thesis
    by (simp add: test_array_def)
qed

subsection \<open>The sweep\<close>

lemma can_wake_up_release_predicate:
  "sync_arr_cell_can_wake_up heap cell = release_predicate heap cell"
  by (cases "request_type cell") (simp_all add: sync_arr_cell_can_wake_up_def release_predicate_def)

lemma get_event_waited_event:
  "sync_cell_get_event heap cell = waited_event heap cell"
  by (cases "request_type cell") (simp_all add: sync_cell_get_event_def waited_event_def)

lemma os_event_set_idem: "os_event_set (os_event_set ev) = os_event_set ev"
  by (simp add: os_event_set_def)

lemma sweep_cell_locks:
  "mutex_at (sweep_cell heap cell) = mutex_at heap" "rw_lock_at (sweep_cell heap cell) = rw_lock_at heap"
  by (simp_all add: sweep_cell_def set_event_at_def)

lemma can_wake_up_cong:
  "mutex_at h = mutex_at heap \<Longrightarrow> rw_lock_at h = rw_lock_at heap \<Longrightarrow>
     sync_arr_cell_can_wake_up h cell = sync_arr_cell_can_wake_up heap cell"
  by (simp add: sync_arr_cell_can_wake_up_def)

lemma get_event_cong:
  "mutex_at h = mutex_at heap \<Longrightarrow> rw_lock_at h = rw_lock_at heap \<Longrightarrow>
     sync_cell_get_event h cell = sync_cell_get_event heap cell"
  by (simp add: sync_cell_get_event_def)

lemma foldl_sweep_locks:
  "mutex_at (foldl sweep_cell heap cells) = mutex_at heap \<and>
   rw_lock_at (foldl sweep_cell heap cells) = rw_lock_at heap"
  by (induction cells arbitrary: heap) (simp_all add: sweep_cell_locks)

lemma foldl_sweep_none:
  "filter (\<lambda>cell. wait_object cell \<noteq> NULL) cells = [] \<Longrightarrow> foldl sweep_cell heap cells = heap"
  by (induction cells arbitrary: heap) (auto simp: sweep_cell_def split: if_splits)

lemma foldl_sweep_events:
  "event_at (foldl sweep_cell heap cells) e =
     (if \<exists>cell \<in> set cells. wait_object cell \<noteq> NULL \<and> sync_arr_cell_can_wake_up heap cell \<and>
            sync_cell_get_event heap cell = e
      then os_event_set (event_at heap e) else event_at heap e)"
proof (induction cells arbitrary: heap)
  case Nil
  then show ?case by simp
next
  case (Cons c cells)
  let ?h = "sweep_cell heap c"
  have l: "mutex_at ?h = mutex_at heap" "rw_lock_at ?h = rw_lock_at heap"
    by (rule sweep_cell_locks)+
  have w: "\<And>cell. sync_arr_cell_can_wake_up ?h cell = sync_arr_cell_can_wake_up heap cell"
    by (rule can_wake_up_cong [OF l])
  have g: "\<And>cell. sync_cell_get_event ?h cell = sync_cell_get_event heap cell"
    by (rule get_event_cong [OF l])
  have h: "event_at ?h e =
      (if wait_object c \<noteq> NULL \<and> sync_arr_cell_can_wake_up heap c \<and> sync_cell_get_event heap c = e
       then os_event_set (event_at heap e) else event_at heap e)"
    by (simp add: sweep_cell_def set_event_at_def)
  have "event_at (foldl sweep_cell heap (c # cells)) e = event_at (foldl sweep_cell ?h cells) e"
    by simp
  also have "\<dots> = (if \<exists>cell \<in> set cells. wait_object cell \<noteq> NULL \<and> sync_arr_cell_can_wake_up heap cell \<and>
            sync_cell_get_event heap cell = e
      then os_event_set (event_at ?h e) else event_at ?h e)"
    by (simp add: Cons.IH w g)
  also have "\<dots> = (if \<exists>cell \<in> set (c # cells). wait_object cell \<noteq> NULL \<and> sync_arr_cell_can_wake_up heap cell \<and>
            sync_cell_get_event heap cell = e
      then os_event_set (event_at heap e) else event_at heap e)"
    unfolding h by (auto simp: os_event_set_idem)
  finally show ?case .
qed

lemma wake_loop_foldl:
  "length (array arr) = unat (n_cells arr) \<Longrightarrow>
   unat count + length (filter (\<lambda>cell. wait_object cell \<noteq> NULL) (drop (unat i) (array arr)))
     = unat (n_reserved arr) \<Longrightarrow>
   wake_loop arr heap i count = Inr (foldl sweep_cell heap (drop (unat i) (array arr)))"
proof (induction arr heap i count rule: wake_loop.induct)
  case (1 arr heap i count)
  let ?P = "\<lambda>cell. wait_object cell \<noteq> NULL"
  note len = "1.prems"(1) and cnt = "1.prems"(2)
  show ?case
  proof (cases "count < n_reserved arr")
    case False
    then have "unat (n_reserved arr) \<le> unat count" by (simp add: word_less_nat_alt)
    with cnt have "length (filter ?P (drop (unat i) (array arr))) = 0" by linarith
    then have "filter ?P (drop (unat i) (array arr)) = []" by (rule length_0_conv [THEN iffD1])
    from foldl_sweep_none [OF this] show ?thesis
      using False by (simp add: wake_loop.simps [of arr heap i count])
  next
    case c: True
    then have "unat count < unat (n_reserved arr)" by (simp add: word_less_nat_alt)
    with cnt have "length (filter ?P (drop (unat i) (array arr))) \<noteq> 0" by linarith
    then have "filter ?P (drop (unat i) (array arr)) \<noteq> []" by (simp del: filter_empty_conv filter_False)
    then have "drop (unat i) (array arr) \<noteq> []" by auto
    then have lt: "unat i < length (array arr)" by simp
    then have i: "i < n_cells arr" using len by (simp add: word_less_nat_alt)
    have suc: "unat (i + 1) = Suc (unat i)" by (rule unat_inc_less [OF i])
    have csuc: "unat (count + 1) = Suc (unat count)" by (rule unat_inc_less [OF c])
    have d: "drop (unat i) (array arr) = array arr ! unat i # drop (Suc (unat i)) (array arr)"
      using lt by (simp add: Cons_nth_drop_Suc)
    show ?thesis
    proof (cases "wait_object (array arr ! unat i) \<noteq> NULL")
      case True
      have cnt': "unat (count + 1) + length (filter ?P (drop (unat (i + 1)) (array arr)))
                  = unat (n_reserved arr)"
        using cnt True by (simp add: d suc csuc)
      from "1.IH"(1) [OF c i refl True len cnt']
      show ?thesis
        using c i True by (simp add: wake_loop.simps [of arr heap i count] d suc sweep_cell_def)
    next
      case False
      have cnt': "unat count + length (filter ?P (drop (unat (i + 1)) (array arr)))
                  = unat (n_reserved arr)"
        using cnt False by (simp add: d suc)
      from "1.IH"(2) [OF c i refl False len cnt']
      show ?thesis
        using c i False by (simp add: wake_loop.simps [of arr heap i count] d suc sweep_cell_def)
    qed
  qed
qed

text \<open>
  Claim C3. On an array whose counter is right, the sweep returns and sets the event of
  exactly the reserved cells whose wait object satisfies the release predicate of the
  request type (mutex: \<open>lock_word = 0\<close>; shared and exclusive rw-lock request:
  \<open>lock_word > 0\<close>; wait-exclusive request: \<open>lock_word = 0\<close>). The event of a cell
  is the one its request type sleeps on: the event of the mutex, the event of the
  rw-lock, or its \<open>wait_ex_event\<close>. Every such event is set, every other event is as
  it was, and the locks and the array are unchanged.
\<close>

theorem sweep_sets_events_of_releasable_cells:
  assumes "sync_array_inv arr" "\<not> os_mutex arr"
  shows "\<exists>heap'. sync_array_wake_threads_if_sema_free_low arr heap = Inr (arr, heap') \<and>
           mutex_at heap' = mutex_at heap \<and> rw_lock_at heap' = rw_lock_at heap \<and>
           (\<forall>e. event_at heap' e =
              (if \<exists>cell \<in> set (array arr). wait_object cell \<noteq> NULL \<and> release_predicate heap cell \<and>
                     waited_event heap cell = e
               then os_event_set (event_at heap e) else event_at heap e)) \<and>
           (\<forall>cell \<in> set (array arr). wait_object cell \<noteq> NULL \<and> release_predicate heap cell \<longrightarrow>
              is_set (event_at heap' (waited_event heap cell)))"
proof -
  let ?a = "arr\<lparr>os_mutex := True\<rparr>"
  let ?h = "foldl sweep_cell heap (array arr)"
  have len: "length (array ?a) = unat (n_cells ?a)"
    and cnt: "unat (0::ulint) + length (filter (\<lambda>cell. wait_object cell \<noteq> NULL) (drop (unat (0::ulint)) (array ?a)))
         = unat (n_reserved ?a)"
    using assms(1) by (simp_all add: sync_array_inv_def count_reserved_def)
  have w: "wake_loop ?a heap 0 0 = Inr ?h"
    using wake_loop_foldl [OF len cnt, of heap] by simp
  have e: "arr\<lparr>os_mutex := False\<rparr> = arr" using assms(2) by simp
  have r: "sync_array_wake_threads_if_sema_free_low arr heap = Inr (arr, ?h)"
    using assms(2) w e
    by (simp add: sync_array_wake_threads_if_sema_free_low_def sync_array_enter_def sync_array_exit_def)
  have ev: "\<forall>e. event_at ?h e =
              (if \<exists>cell \<in> set (array arr). wait_object cell \<noteq> NULL \<and> release_predicate heap cell \<and>
                     waited_event heap cell = e
               then os_event_set (event_at heap e) else event_at heap e)"
    using foldl_sweep_events [of heap "array arr"]
    by (simp add: can_wake_up_release_predicate get_event_waited_event)
  have set: "\<forall>cell \<in> set (array arr). wait_object cell \<noteq> NULL \<and> release_predicate heap cell \<longrightarrow>
              is_set (event_at ?h (waited_event heap cell))"
  proof (intro ballI impI)
    fix cell
    assume c: "cell \<in> set (array arr)" and p: "wait_object cell \<noteq> NULL \<and> release_predicate heap cell"
    then have "event_at ?h (waited_event heap cell) = os_event_set (event_at heap (waited_event heap cell))"
      using ev by auto
    then show "is_set (event_at ?h (waited_event heap cell))"
      by (simp add: os_event_set_def)
  qed
  show ?thesis
    using r ev set foldl_sweep_locks [of heap "array arr"] by blast
qed

text \<open>
  The witness has a mutex waiter whose mutex is free, a wait-exclusive waiter whose
  rw-lock still has \<open>lock_word = 5\<close>, a shared waiter whose rw-lock is open, and a free
  cell: the event of the mutex (10) and the event of the open rw-lock (31) are set, and
  both events of the other rw-lock (21, 22) and the \<open>wait_ex_event\<close> of the open one
  (32) are as they were.
\<close>

theorem sweep_sets_events_of_releasable_cells_witness:
  "\<exists>heap'. sync_array_wake_threads_if_sema_free_low
              (test_array [mutex_cell 7 1, waiting_cell 8 RW_LOCK_WAIT_EX 2,
                           waiting_cell 9 RW_LOCK_SHARED 3, zero_cell] 3) sweep_heap
             = Inr (test_array [mutex_cell 7 1, waiting_cell 8 RW_LOCK_WAIT_EX 2,
                                waiting_cell 9 RW_LOCK_SHARED 3, zero_cell] 3, heap')
           \<and> event_at heap' 10 = \<lparr>is_set = True, ev_signal_count = 4\<rparr>
           \<and> event_at heap' 31 = \<lparr>is_set = True, ev_signal_count = 4\<rparr>
           \<and> event_at heap' 21 = \<lparr>is_set = False, ev_signal_count = 3\<rparr>
           \<and> event_at heap' 22 = \<lparr>is_set = False, ev_signal_count = 3\<rparr>
           \<and> event_at heap' 32 = \<lparr>is_set = False, ev_signal_count = 3\<rparr>"
proof -
  let ?arr = "test_array [mutex_cell 7 1, waiting_cell 8 RW_LOCK_WAIT_EX 2,
                          waiting_cell 9 RW_LOCK_SHARED 3, zero_cell] 3"
  have a: "sync_array_inv ?arr"
    by (simp add: sync_array_inv_def count_reserved_def test_array_def mutex_cell_def
          waiting_cell_def zero_cell_def NULL_def)
  have b: "\<not> os_mutex ?arr" by (simp add: test_array_def)
  from sweep_sets_events_of_releasable_cells [OF a b, of sweep_heap]
  obtain heap' where
    s: "sync_array_wake_threads_if_sema_free_low ?arr sweep_heap = Inr (?arr, heap')"
    and e: "\<forall>e. event_at heap' e =
              (if \<exists>cell \<in> set (array ?arr).
                     wait_object cell \<noteq> NULL \<and> release_predicate sweep_heap cell \<and>
                     waited_event sweep_heap cell = e
               then os_event_set (event_at sweep_heap e) else event_at sweep_heap e)"
    by blast
  note defs = test_array_def mutex_cell_def waiting_cell_def zero_cell_def NULL_def
    release_predicate_def waited_event_def sweep_heap_def os_event_set_def
  have "event_at heap' 10 = \<lparr>is_set = True, ev_signal_count = 4\<rparr>"
    using e by (simp add: defs)
  moreover have "event_at heap' 31 = \<lparr>is_set = True, ev_signal_count = 4\<rparr>"
    using e by (simp add: defs)
  moreover have "event_at heap' 21 = \<lparr>is_set = False, ev_signal_count = 3\<rparr>"
    using e by (simp add: defs)
  moreover have "event_at heap' 22 = \<lparr>is_set = False, ev_signal_count = 3\<rparr>"
    using e by (simp add: defs)
  moreover have "event_at heap' 32 = \<lparr>is_set = False, ev_signal_count = 3\<rparr>"
    using e by (simp add: defs)
  ultimately show ?thesis using s by blast
qed

subsection \<open>Success and failure of the operations\<close>

lemma reserved_cell_fields:
  "wait_object (reserved_cell self now heap object type fl ln cell) = object"
  "request_type (reserved_cell self now heap object type fl ln cell) = type"
  "thread (reserved_cell self now heap object type fl ln cell) = self"
  "signal_count (reserved_cell self now heap object type fl ln cell) =
     ev_signal_count (event_at heap
       (waited_event heap (reserved_cell self now heap object type fl ln cell)))"
  by (simp_all add: reserved_cell_def Let_def sync_cell_get_event_def waited_event_def
        split: lock_type.splits)

lemma inv_reserved_nonzero:
  assumes "sync_array_inv arr" "index < n_cells arr" "wait_object (array arr ! unat index) \<noteq> NULL"
  shows "0 < n_reserved arr"
proof -
  have len: "length (array arr) = unat (n_cells arr)" and cnt: "unat (n_reserved arr) = count_reserved arr"
    using assms(1) by (simp_all add: sync_array_inv_def)
  have "unat index < length (array arr)" using assms(2) len by (simp add: word_less_nat_alt)
  then have "array arr ! unat index \<in> set (array arr)" by simp
  with assms(3) have "array arr ! unat index \<in> set (filter (\<lambda>cell. wait_object cell \<noteq> NULL) (array arr))"
    by simp
  then have "0 < count_reserved arr" unfolding count_reserved_def by (metis length_pos_if_in_set)
  with cnt have "unat (n_reserved arr) \<noteq> 0" by simp
  then have "n_reserved arr \<noteq> 0" by (metis unat_0)
  then show ?thesis by (simp add: word_neq_0_conv)
qed

lemma free_cell_outcome:
  assumes "\<not> os_mutex arr"
  shows "sync_array_free_cell arr index =
     (if index < n_cells arr \<and> wait_object (array arr ! unat index) \<noteq> NULL \<and> 0 < n_reserved arr
      then Inr (arr\<lparr>array := (array arr)[unat index :=
                      (array arr ! unat index)\<lparr>waiting := False, wait_object := NULL, signal_count := 0\<rparr>],
                    n_reserved := n_reserved arr - 1\<rparr>)
      else Inl Ut_a_failed)"
proof -
  have "arr\<lparr>os_mutex := False\<rparr> = arr" using assms by simp
  then show ?thesis
  using assms
  by (simp add: sync_array_free_cell_def sync_array_enter_def sync_array_get_nth_cell_def
        sync_array_exit_def Let_def)
qed

lemma wait_event_enter_outcome:
  assumes "\<not> os_mutex arr"
  shows "sync_array_wait_event_enter False self arr heap index =
     (if index < n_cells arr \<and> wait_object (array arr ! unat index) \<noteq> NULL \<and>
         \<not> waiting (array arr ! unat index)
      then Inr (arr\<lparr>array := (array arr)[unat index := (array arr ! unat index)\<lparr>waiting := True\<rparr>]\<rparr>,
                sync_cell_get_event heap (array arr ! unat index),
                signal_count (array arr ! unat index))
      else Inl Ut_a_failed)"
proof -
  have "\<And>f. arr\<lparr>os_mutex := False, array := f\<rparr> = arr\<lparr>array := f\<rparr>" using assms by simp
  then show ?thesis
  using assms
  by (auto simp add: sync_array_wait_event_enter_def sync_array_enter_def sync_array_get_nth_cell_def
        sync_array_exit_def Let_def)
qed

lemma wait_event_failure:
  assumes "sync_array_inv arr" "\<not> os_mutex arr"
  shows "(sync_array_wait_event False self arr heap woken index = Inl Ut_a_failed) =
         (\<not> (index < n_cells arr \<and> wait_object (array arr ! unat index) \<noteq> NULL \<and>
             \<not> waiting (array arr ! unat index)))"
proof (cases "index < n_cells arr \<and> wait_object (array arr ! unat index) \<noteq> NULL \<and>
         \<not> waiting (array arr ! unat index)")
  case False
  then have "sync_array_wait_event_enter False self arr heap index = Inl Ut_a_failed"
    using wait_event_enter_outcome [OF assms(2), of self heap index] by auto
  then have "sync_array_wait_event False self arr heap woken index = Inl Ut_a_failed"
    by (simp add: sync_array_wait_event_def)
  with False show ?thesis by blast
next
  case True
  let ?arr1 = "arr\<lparr>array := (array arr)[unat index := (array arr ! unat index)\<lparr>waiting := True\<rparr>]\<rparr>"
  have e: "sync_array_wait_event_enter False self arr heap index =
        Inr (?arr1, sync_cell_get_event heap (array arr ! unat index), signal_count (array arr ! unat index))"
    using wait_event_enter_outcome [OF assms(2), of self heap index] True by simp
  have inv1: "sync_array_inv ?arr1" by (rule inv_wait_event_enter [OF assms(1) e])
  have m1: "\<not> os_mutex ?arr1" using assms(2) by simp
  have len: "length (array arr) = unat (n_cells arr)" using assms(1) by (simp add: sync_array_inv_def)
  have lt: "unat index < length (array arr)" using True len by (simp add: word_less_nat_alt)
  have r1: "index < n_cells ?arr1" "wait_object (array ?arr1 ! unat index) \<noteq> NULL"
    using True lt by simp_all
  have "0 < n_reserved ?arr1" by (rule inv_reserved_nonzero [OF inv1 r1])
  then have "sync_array_free_cell ?arr1 index \<noteq> Inl Ut_a_failed"
    using free_cell_outcome [OF m1, of index] r1 by simp
  then show ?thesis using True e by (simp add: sync_array_wait_event_def)
qed

text \<open>
  What holds of the operations on an array whose mutex is free and whose counter is
  right. \<open>sync_array_reserve_cell\<close>, called with a wait object, returns; it returns
  true iff some cell has \<open>wait_object = NULL\<close> at entry, and then the cell at the
  returned index was free and now holds the wait object, the request type, the
  calling thread and the signal count of the event its request type sleeps on,
  \<open>n_reserved\<close> is one more and no other cell has changed; it returns false
  otherwise, with the cells, \<open>n_reserved\<close> and the memory unchanged. A cell that is
  reserved can be freed, and can be waited on unless it is waiting already: the
  assertions of \<open>sync_array_free_cell\<close> and \<open>sync_array_wait_event\<close> (release
  build) fail for no reserved cell.
\<close>

lemma reserve_cell_outcome:
  assumes "object \<noteq> NULL" "\<not> os_mutex arr" "sync_array_inv arr"
  shows "\<exists>r arr' heap'.
      sync_array_reserve_cell self now arr heap object type fl ln = Inr (r, arr', heap') \<and>
      ((r \<noteq> None) = (\<exists>i. i < n_cells arr \<and> wait_object (array arr ! unat i) = NULL)) \<and>
      (case r of
         None \<Rightarrow> array arr' = array arr \<and> n_reserved arr' = n_reserved arr \<and> heap' = heap
       | Some i \<Rightarrow>
           wait_object (array arr ! unat i) = NULL \<and>
           wait_object (array arr' ! unat i) = object \<and>
           request_type (array arr' ! unat i) = type \<and>
           thread (array arr' ! unat i) = self \<and>
           signal_count (array arr' ! unat i) =
             ev_signal_count (event_at heap (waited_event heap (array arr' ! unat i))) \<and>
           n_reserved arr' = n_reserved arr + 1 \<and>
           (\<forall>j. j \<noteq> unat i \<longrightarrow> array arr' ! j = array arr ! j)) \<and>
      (\<forall>index. (sync_array_free_cell arr index = Inl Ut_a_failed) =
          (\<not> (index < n_cells arr \<and> wait_object (array arr ! unat index) \<noteq> NULL))) \<and>
      (\<forall>index woken. (sync_array_wait_event False self arr heap woken index = Inl Ut_a_failed) =
          (\<not> (index < n_cells arr \<and> wait_object (array arr ! unat index) \<noteq> NULL \<and>
              \<not> waiting (array arr ! unat index))))"
proof -
  have len: "length (array arr) = unat (n_cells arr)" using assms(3) by (simp add: sync_array_inv_def)
  have f: "\<forall>index. (sync_array_free_cell arr index = Inl Ut_a_failed) =
          (\<not> (index < n_cells arr \<and> wait_object (array arr ! unat index) \<noteq> NULL))"
    using free_cell_outcome [OF assms(2)] inv_reserved_nonzero [OF assms(3)] by auto
  have w: "\<forall>index woken. (sync_array_wait_event False self arr heap woken index = Inl Ut_a_failed) =
          (\<not> (index < n_cells arr \<and> wait_object (array arr ! unat index) \<noteq> NULL \<and>
              \<not> waiting (array arr ! unat index)))"
    using wait_event_failure [OF assms(3) assms(2)] by blast
  show ?thesis
  proof (cases "reserve_loop arr 0")
    case None
    from reserve_loop_None [OF None]
    have "\<not> (\<exists>i. i < n_cells arr \<and> wait_object (array arr ! unat i) = NULL)" by auto
    with reserve_cell_None [OF assms(1,2) None, of self now heap type fl ln] f w
    show ?thesis by simp
  next
    case (Some i)
    from reserve_loop_Some [OF Some]
    have i: "i < n_cells arr" "wait_object (array arr ! unat i) = NULL" by auto
    then have ex: "\<exists>i. i < n_cells arr \<and> wait_object (array arr ! unat i) = NULL" by blast
    have lt: "unat i < length (array arr)" using i len by (simp add: word_less_nat_alt)
    from reserve_cell_Some [OF assms(1,2) Some, of self now heap type fl ln]
    obtain cell' ev where r: "sync_array_reserve_cell self now arr heap object type fl ln =
         Inr (Some i,
              arr\<lparr>res_count := res_count arr + 1, n_reserved := n_reserved arr + 1,
                  os_mutex := False, array := (array arr)[unat i := cell']\<rparr>,
              heap\<lparr>event_at := (event_at heap)(ev := (event_at heap ev)\<lparr>is_set := False\<rparr>)\<rparr>)"
      and c: "cell' = reserved_cell self now heap object type fl ln (array arr ! unat i)"
      by blast
    show ?thesis
      apply (rule exI [of _ "Some i"])
      apply (rule exI)+
      apply (rule conjI [OF r])
      using ex i lt f w by (simp add: c reserved_cell_fields)
  qed
qed

lemma held_mutex_blocks:
  assumes "os_mutex arr"
  shows "sync_array_free_cell arr index = Inl Blocked"
    and "sync_array_wait_event debug self arr heap woken index = Inl Blocked"
    and "sync_array_reserve_cell self now arr heap object type fl ln
         = (if object = NULL then Inl Ut_a_failed else Inl Blocked)"
    and "sync_array_wake_threads_if_sema_free_low arr heap = Inl Blocked"
    and "sync_array_validate arr = Inl Blocked"
  using assms
  by (simp_all add: sync_array_free_cell_def sync_array_wait_event_def
        sync_array_wait_event_enter_def sync_array_reserve_cell_def
        sync_array_wake_threads_if_sema_free_low_def sync_array_validate_def sync_array_enter_def)

lemma no_cell_keeps_mutex:
  assumes "object \<noteq> NULL" "\<not> os_mutex arr"
    and "\<forall>i. i < n_cells arr \<longrightarrow> wait_object (array arr ! unat i) \<noteq> NULL"
  shows "\<exists>arr'. sync_array_reserve_cell self now arr heap object type fl ln = Inr (None, arr', heap)
           \<and> os_mutex arr'"
proof (cases "reserve_loop arr 0")
  case None
  from reserve_cell_None [OF assms(1,2) None, of self now heap type fl ln] show ?thesis by simp
next
  case (Some i)
  from reserve_loop_Some [OF Some] assms(3) show ?thesis by blast
qed

text \<open>
  Claim C2. \<open>sync_array_reserve_cell\<close> returns true and reserves a cell iff a cell is
  free at entry, and returns false, reserving none, if every cell is occupied; no
  other operation of the wait array can fail. The first part holds. The second fails
  after a call that found no cell: that path returns without the
  \<open>sync_array_exit\<close> that the path reserving a cell calls, so the array mutex stays
  held and every later operation on the array blocks in \<open>sync_array_enter\<close>. Below,
  thread 2 finds the one cell of the array taken by thread 1; before that call
  thread 1 could free its cell, after it thread 1 can neither free it nor wait on
  it, and reserving, the sweep and validation block as well.
\<close>

theorem no_cell_leaves_mutex_held:
  "\<not> isl (sync_array_free_cell (test_array [mutex_cell 7 1] 1) 0)
   \<and> sync_array_reserve_cell 2 0 (test_array [mutex_cell 7 1] 1) test_heap 7 SYNC_MUTEX [] 0
       = Inr (None, held_array, test_heap)
   \<and> os_mutex held_array
   \<and> sync_array_free_cell held_array 0 = Inl Blocked
   \<and> sync_array_wait_event False 1 held_array test_heap test_heap 0 = Inl Blocked
   \<and> sync_array_reserve_cell 2 0 held_array test_heap 7 SYNC_MUTEX [] 0 = Inl Blocked
   \<and> sync_array_wake_threads_if_sema_free_low held_array test_heap = Inl Blocked
   \<and> sync_array_validate held_array = Inl Blocked"
proof -
  have a: "(7 :: addr) \<noteq> NULL" by (simp add: NULL_def)
  have b: "\<not> os_mutex (test_array [mutex_cell 7 1] 1)" by (simp add: test_array_def)
  have c: "reserve_loop (test_array [mutex_cell 7 1] 1) 0 = None" by code_simp
  have f: "\<not> isl (sync_array_free_cell (test_array [mutex_cell 7 1] 1) 0)" by code_simp
  have r: "sync_array_reserve_cell 2 0 (test_array [mutex_cell 7 1] 1) test_heap 7 SYNC_MUTEX [] 0
       = Inr (None, held_array, test_heap)"
    using reserve_cell_None [OF a b c, of 2 0 test_heap SYNC_MUTEX "[]" 0]
    by (simp add: held_array_def test_array_def)
  have h: "os_mutex held_array" by (simp add: held_array_def)
  show ?thesis
    using f r h held_mutex_blocks [OF h] a by simp
qed

subsection \<open>The reservation total\<close>

lemma reserve_cell_total:
  assumes "object \<noteq> NULL" "\<not> os_mutex arr"
  shows "\<exists>arr' heap'. sync_array_reserve_cell self now arr heap object type fl ln
           = Inr (reserve_loop arr 0, arr', heap') \<and> res_count arr' = res_count arr + 1"
proof (cases "reserve_loop arr 0")
  case None
  from reserve_cell_None [OF assms None, of self now heap type fl ln] show ?thesis
    using None by simp
next
  case (Some i)
  from reserve_cell_Some [OF assms Some, of self now heap type fl ln] show ?thesis
    using Some by auto
qed

text \<open>
  Claim C9, as amended. Every call of \<open>sync_array_reserve_cell\<close> that enters the
  array adds one to \<open>res_count\<close>, the calls that return false included, so
  \<open>res_count\<close> counts attempts; the addition is that of \<open>ulint\<close>, and the total
  grows by one unless it stands at the largest \<open>ulint\<close>.
\<close>

theorem res_count_counts_attempts:
  assumes "object \<noteq> NULL" "\<not> os_mutex arr"
  shows "\<exists>r arr' heap'. sync_array_reserve_cell self now arr heap object type fl ln = Inr (r, arr', heap')
           \<and> res_count arr' = res_count arr + 1
           \<and> (res_count arr \<noteq> - 1 \<longrightarrow> unat (res_count arr') = Suc (unat (res_count arr)))"
proof -
  from reserve_cell_total [OF assms, of self now heap type fl ln]
  obtain arr' heap' where r: "sync_array_reserve_cell self now arr heap object type fl ln
           = Inr (reserve_loop arr 0, arr', heap')" "res_count arr' = res_count arr + 1"
    by blast
  have "res_count arr \<noteq> - 1 \<Longrightarrow> unat (res_count arr + 1) = Suc (unat (res_count arr))"
  proof -
    assume "res_count arr \<noteq> - 1"
    then have "res_count arr + 1 \<noteq> 0" by (metis add.commute add_eq_0_iff2 add.inverse_inverse add_eq_0_iff)
    then show ?thesis by (metis add.commute unatSuc)
  qed
  with r show ?thesis by auto
qed

theorem res_count_counts_attempts_witness:
  "\<exists>r arr' heap'.
      sync_array_reserve_cell 2 0 (test_array [mutex_cell 7 1] 1) test_heap 7 SYNC_MUTEX [] 0
        = Inr (r, arr', heap') \<and> r = None \<and> res_count arr' = 1"
proof -
  have a: "(7 :: addr) \<noteq> NULL" by (simp add: NULL_def)
  have b: "\<not> os_mutex (test_array [mutex_cell 7 1] 1)" by (simp add: test_array_def)
  have c: "reserve_loop (test_array [mutex_cell 7 1] 1) 0 = None" by code_simp
  have d: "res_count (test_array [mutex_cell 7 1] 1) = 0" by (simp add: test_array_def)
  from res_count_counts_attempts [OF a b, of 2 0 test_heap SYNC_MUTEX "[]" 0]
  obtain r arr' heap' where
    e: "sync_array_reserve_cell 2 0 (test_array [mutex_cell 7 1] 1) test_heap 7 SYNC_MUTEX [] 0
        = Inr (r, arr', heap')" and f: "res_count arr' = res_count (test_array [mutex_cell 7 1] 1) + 1"
    by blast
  from reserve_cell_result [OF e] c have "r = None" by simp
  with e f d show ?thesis by simp
qed

text \<open>
  The claim as stated fails: at the largest \<open>ulint\<close> a call takes \<open>res_count\<close> to 0.
\<close>

theorem res_count_wraps_counterexample:
  "sync_array_reserve_cell 2 0 ((test_array [mutex_cell 7 1] 1)\<lparr>res_count := - 1\<rparr>) test_heap 7
       SYNC_MUTEX [] 0
     = Inr (None, (test_array [mutex_cell 7 1] 1)\<lparr>os_mutex := True, res_count := 0\<rparr>, test_heap)
   \<and> res_count ((test_array [mutex_cell 7 1] 1)\<lparr>os_mutex := True, res_count := 0\<rparr>)
       < res_count ((test_array [mutex_cell 7 1] 1)\<lparr>res_count := - 1\<rparr>)"
proof -
  have a: "(7 :: addr) \<noteq> NULL" by (simp add: NULL_def)
  have b: "\<not> os_mutex ((test_array [mutex_cell 7 1] 1)\<lparr>res_count := - 1\<rparr>)" by (simp add: test_array_def)
  have c: "reserve_loop ((test_array [mutex_cell 7 1] 1)\<lparr>res_count := - 1\<rparr>) 0 = None" by code_simp
  from reserve_cell_None [OF a b c, of 2 0 test_heap SYNC_MUTEX "[]" 0]
  show ?thesis by (simp add: word_neq_0_conv [symmetric])
qed

subsection \<open>The size of the arrays\<close>

lemma init_loop_replicate:
  "sync_array_create n_slots = Inr arr \<Longrightarrow> init_loop k n_slots = Inr (replicate k arr)"
  by (induction k) simp_all

lemma n_slots_unat:
  assumes "0 < srv" "0 < (n_threads::ulint)"
  shows "unat (1 + (n_threads - 1) div srv) = 1 + (unat n_threads - 1) div unat srv"
proof -
  have "n_threads \<noteq> 0" using assms(2) by auto
  then have a: "unat (n_threads - 1) = unat n_threads - 1" by (rule unat_minus_one)
  have b: "unat ((n_threads - 1) div srv) = (unat n_threads - 1) div unat srv"
    by (simp add: unat_div a)
  have "unat n_threads < 2 ^ 64" using unsigned_less [of n_threads] by simp
  moreover have "(unat n_threads - 1) div unat srv \<le> unat n_threads - 1" by (rule div_le_dividend)
  moreover have "0 < unat n_threads" using assms(2) by (simp add: word_less_nat_alt)
  ultimately have "1 + (unat n_threads - 1) div unat srv < 2 ^ 64" by linarith
  then show ?thesis using b by (simp add: unat_word_ariths)
qed

text \<open>
  Claim C7, as amended. \<open>sync_array_init\<close>, given a positive thread count and a
  positive number of instances, creates that many instances, each with
  \<open>1 + (n_threads - 1) / instances\<close> cells, the thread count divided by the number
  of instances and rounded up.
\<close>

theorem sync_array_init_cells:
  assumes "0 < srv" "0 < n_threads"
  shows "\<exists>arrs. sync_array_init None srv n_threads = Inr arrs \<and> length arrs = unat srv \<and>
           (\<forall>arr \<in> set arrs. n_cells arr = 1 + (n_threads - 1) div srv \<and>
              unat (n_cells arr) = 1 + (unat n_threads - 1) div unat srv \<and>
              length (array arr) = unat (n_cells arr))"
proof -
  let ?n = "1 + (n_threads - 1) div srv"
  have u: "unat ?n = 1 + (unat n_threads - 1) div unat srv" by (rule n_slots_unat [OF assms])
  then have "unat ?n \<noteq> 0" by simp
  then have "?n \<noteq> 0" by (metis unat_0)
  then have pos: "0 < ?n" by (simp add: word_neq_0_conv)
  let ?arr = "\<lparr>n_reserved = 0, n_cells = ?n, array = replicate (unat ?n) zero_cell,
                os_mutex = False, res_count = 0\<rparr>"
  have c: "sync_array_create ?n = Inr ?arr" using pos by (simp add: sync_array_create_def)
  have "sync_array_init None srv n_threads = Inr (replicate (unat srv) ?arr)"
    using assms init_loop_replicate [OF c] by (simp add: sync_array_init_def)
  then show ?thesis using u by auto
qed

theorem sync_array_init_cells_witness:
  "\<exists>arrs. sync_array_init None 2 5 = Inr arrs \<and> length arrs = unat (2 :: ulint) \<and>
           (\<forall>arr \<in> set arrs. n_cells arr = 1 + (5 - 1) div 2 \<and>
              unat (n_cells arr) = 1 + (unat (5 :: ulint) - 1) div unat (2 :: ulint) \<and>
              length (array arr) = unat (n_cells arr))"
  using sync_array_init_cells [of 2 5] by simp

text \<open>
  The claim as stated fails when the thread count is a multiple of the number of
  instances: 4 threads on 2 instances give 2 cells each, not \<open>4 / 2 + 1 = 3\<close>.
\<close>

theorem sync_array_init_cells_counterexample:
  "map_sum id (map n_cells) (sync_array_init None 2 4) = Inr [2, 2] \<and> (4 :: ulint) div 2 + 1 = 3"
  by code_simp

subsection \<open>Deadlock detection\<close>

text \<open>
  What \<open>sync_array_find_thread\<close> returns: the first reserved cell of the thread, and
  nothing only if the thread has no reserved cell.
\<close>

lemma find_thread_loop_Some:
  "find_thread_loop arr thr i = Some j \<Longrightarrow>
     i \<le> j \<and> j < n_cells arr \<and>
     wait_object (array arr ! unat j) \<noteq> NULL \<and> thread (array arr ! unat j) = thr \<and>
     (\<forall>k. i \<le> k \<and> k < j \<longrightarrow>
        \<not> (wait_object (array arr ! unat k) \<noteq> NULL \<and> thread (array arr ! unat k) = thr))"
proof (induction arr thr i rule: find_thread_loop.induct)
  case (1 arr thr i)
  let ?hit = "\<lambda>k. wait_object (array arr ! unat k) \<noteq> NULL \<and> thread (array arr ! unat k) = thr"
  show ?case
  proof (cases "i < n_cells arr")
    case False
    with "1.prems" show ?thesis by (simp add: find_thread_loop.simps [of arr thr i])
  next
    case lt: True
    show ?thesis
    proof (cases "?hit i")
      case True
      with lt "1.prems" have "j = i" by (simp add: find_thread_loop.simps [of arr thr i])
      with lt True show ?thesis by auto
    next
      case False
      with lt "1.prems" have r: "find_thread_loop arr thr (i + 1) = Some j"
        by (simp add: find_thread_loop.simps [of arr thr i])
      from "1.IH" [OF lt False r]
      have ih: "i + 1 \<le> j" "j < n_cells arr" "?hit j" "\<forall>k. i + 1 \<le> k \<and> k < j \<longrightarrow> \<not> ?hit k"
        by auto
      have le: "i \<le> i + 1" using unat_inc_less [OF lt] by (simp add: word_le_nat_alt)
      have "\<And>k. i \<le> k \<Longrightarrow> k < j \<Longrightarrow> \<not> ?hit k"
      proof -
        fix k assume "i \<le> k" "k < j"
        show "\<not> ?hit k"
        proof (cases "k = i")
          case True with False show ?thesis by simp
        next
          case kf: False
          with \<open>i \<le> k\<close> have "i < k" by auto
          then have "i + 1 \<le> k" by (rule inc_le)
          with ih(4) \<open>k < j\<close> show ?thesis by blast
        qed
      qed
      with ih le show ?thesis by auto
    qed
  qed
qed

lemma find_thread_loop_None:
  "find_thread_loop arr thr i = None \<Longrightarrow>
     (\<forall>k. i \<le> k \<and> k < n_cells arr \<longrightarrow>
        \<not> (wait_object (array arr ! unat k) \<noteq> NULL \<and> thread (array arr ! unat k) = thr))"
proof (induction arr thr i rule: find_thread_loop.induct)
  case (1 arr thr i)
  let ?hit = "\<lambda>k. wait_object (array arr ! unat k) \<noteq> NULL \<and> thread (array arr ! unat k) = thr"
  show ?case
  proof (cases "i < n_cells arr")
    case False
    then show ?thesis by auto
  next
    case lt: True
    from lt "1.prems" have nf: "\<not> ?hit i"
      by (auto simp: find_thread_loop.simps [of arr thr i] split: if_splits)
    with lt "1.prems" have r: "find_thread_loop arr thr (i + 1) = None"
      by (auto simp: find_thread_loop.simps [of arr thr i] split: if_splits)
    from "1.IH" [OF lt nf r]
    have ih: "\<forall>k. i + 1 \<le> k \<and> k < n_cells arr \<longrightarrow> \<not> ?hit k" .
    show ?thesis
    proof (intro allI impI)
      fix k assume k: "i \<le> k \<and> k < n_cells arr"
      show "\<not> ?hit k"
      proof (cases "k = i")
        case True with nf show ?thesis by simp
      next
        case False
        with k have "i < k" by auto
        then have "i + 1 \<le> k" by (rule inc_le)
        with ih k show ?thesis by blast
      qed
    qed
  qed
qed

lemma find_thread_first_reserved:
  "sync_array_find_thread arr thr = Some j \<Longrightarrow>
     j < n_cells arr \<and> wait_object (array arr ! unat j) \<noteq> NULL \<and> thread (array arr ! unat j) = thr \<and>
     (\<forall>k. k < j \<longrightarrow>
        \<not> (wait_object (array arr ! unat k) \<noteq> NULL \<and> thread (array arr ! unat k) = thr))"
  "sync_array_find_thread arr thr = None \<Longrightarrow>
     (\<forall>k. k < n_cells arr \<longrightarrow>
        \<not> (wait_object (array arr ! unat k) \<noteq> NULL \<and> thread (array arr ! unat k) = thr))"
  using find_thread_loop_Some [of arr thr 0 j] find_thread_loop_None [of arr thr 0]
  by (simp_all add: sync_array_find_thread_def)

lemma wait_cycle_iff:
  "wait_cycle (followed_threads holder_follows heap) arr start cell \<longleftrightarrow>
     (\<exists>thr \<in> set (followed_threads holder_follows heap (array arr ! unat cell)). step_finds arr heap start thr)"
proof
  assume "wait_cycle (followed_threads holder_follows heap) arr start cell"
  then show "\<exists>thr \<in> set (followed_threads holder_follows heap (array arr ! unat cell)).
               step_finds arr heap start thr"
    by (cases rule: wait_cycle.cases) (auto simp: step_finds_def)
next
  assume "\<exists>thr \<in> set (followed_threads holder_follows heap (array arr ! unat cell)).
               step_finds arr heap start thr"
  then obtain thr c where t: "thr \<in> set (followed_threads holder_follows heap (array arr ! unat cell))"
    and f: "sync_array_find_thread arr thr = Some c"
    and c: "c = start \<or> wait_cycle (followed_threads holder_follows heap) arr start c"
    by (auto simp: step_finds_def)
  show "wait_cycle (followed_threads holder_follows heap) arr start cell"
  proof (cases "c = start")
    case True
    with t f show ?thesis by (auto intro: wait_cycle.closes)
  next
    case False
    with t f c show ?thesis by (auto intro: wait_cycle.extends)
  qed
qed

lemma detect_deadlock_correct_aux:
  "(\<forall>b. sync_array_detect_deadlock self arr heap start cell depth = Inr b \<longrightarrow>
        b = wait_cycle (followed_threads holder_follows heap) arr start cell)"
  "(\<forall>b. sync_array_deadlock_step self arr heap start thr pass depth2 = Inr b \<longrightarrow>
        b = (pass = 0 \<and> step_finds arr heap start thr))"
  "(\<forall>b. deadlock_loop self arr heap start follows debugs depth3 = Inr b \<longrightarrow>
        b = (\<exists>debug \<in> set debugs. follows debug \<and> debug_pass debug = 0 \<and>
               step_finds arr heap start (debug_thread_id debug)))"
proof (induction self arr heap start cell depth and self arr heap start thr pass depth2
         and self arr heap start follows debugs depth3
       rule: sync_array_detect_deadlock_sync_array_deadlock_step_deadlock_loop.induct)
  case (1 self arr heap start cell depth)
  let ?c = "array arr ! unat cell"
  show ?case
  proof (intro allI impI)
    fix b
    assume r: "sync_array_detect_deadlock self arr heap start cell depth = Inr b"
    have ok: "\<not> (wait_object ?c = NULL \<or> self \<noteq> thread (array arr ! unat start) \<or> \<not> depth < 100)"
    proof (rule notI)
      assume "wait_object ?c = NULL \<or> self \<noteq> thread (array arr ! unat start) \<or> \<not> depth < 100"
      then have "sync_array_detect_deadlock self arr heap start cell depth = Inl Ut_a_failed"
        by (simp add: sync_array_detect_deadlock.simps [of self arr heap start cell depth] Let_def)
      with r show False by simp
    qed
    show "b = wait_cycle (followed_threads holder_follows heap) arr start cell"
    proof (cases "waiting ?c")
      case False
      then have "b = False"
        using r ok by (auto simp: sync_array_detect_deadlock.simps [of self arr heap start cell depth] Let_def)
      moreover have "followed_threads holder_follows heap ?c = []"
        using False by (simp add: followed_threads_def)
      ultimately show ?thesis by (simp add: wait_cycle_iff)
    next
      case w: True
      then have nw: "\<not> \<not> waiting ?c" by simp
      show ?thesis
      proof (cases "request_type ?c")
        case SYNC_MUTEX
        show ?thesis
        proof (cases "mutex_lock_word (mutex_at heap (wait_object ?c)) \<noteq> 0")
          case True
          have s: "sync_array_deadlock_step self arr heap start (mutex_thread_id (mutex_at heap (wait_object ?c)))
                     0 (depth + 1) = Inr b"
            using r ok w SYNC_MUTEX True
            by (simp add: sync_array_detect_deadlock.simps [of self arr heap start cell depth] Let_def)
          have "b = step_finds arr heap start (mutex_thread_id (mutex_at heap (wait_object ?c)))"
            using "1.IH"(1) [OF refl ok nw SYNC_MUTEX refl True] s by simp
          moreover have "followed_threads holder_follows heap ?c = [mutex_thread_id (mutex_at heap (wait_object ?c))]"
            using w SYNC_MUTEX True by (simp add: followed_threads_def)
          ultimately show ?thesis by (simp add: wait_cycle_iff)
        next
          case False
          then have "b = False"
            using r ok w SYNC_MUTEX
            by (simp add: sync_array_detect_deadlock.simps [of self arr heap start cell depth] Let_def)
          moreover have "followed_threads holder_follows heap ?c = []"
            using w SYNC_MUTEX False by (simp add: followed_threads_def)
          ultimately show ?thesis by (simp add: wait_cycle_iff)
        qed
      next
        case RW_LOCK_SHARED
        have s: "deadlock_loop self arr heap start s_request_follows
                   (debug_list (rw_lock_at heap (wait_object ?c))) (depth + 1) = Inr b"
          using r ok w RW_LOCK_SHARED
          by (simp add: sync_array_detect_deadlock.simps [of self arr heap start cell depth] Let_def)
        have ne: "request_type ?c \<noteq> SYNC_MUTEX" "\<not> (request_type ?c = RW_LOCK_EX \<or> request_type ?c = RW_LOCK_WAIT_EX)"
          using RW_LOCK_SHARED by simp_all
        have "b = (\<exists>debug \<in> set (debug_list (rw_lock_at heap (wait_object ?c))).
                    s_request_follows debug \<and> debug_pass debug = 0 \<and>
                    step_finds arr heap start (debug_thread_id debug))"
          using "1.IH"(3) [OF refl ok nw ne RW_LOCK_SHARED] s by simp
        moreover have "followed_threads holder_follows heap ?c =
            map debug_thread_id (filter (\<lambda>debug. s_request_follows debug \<and> debug_pass debug = 0)
                (debug_list (rw_lock_at heap (wait_object ?c))))"
          using w RW_LOCK_SHARED by (simp add: followed_threads_def holder_follows_def s_request_follows_def)
        ultimately show ?thesis by (auto simp: wait_cycle_iff)
      next
        case RW_LOCK_EX
        have x: "request_type ?c = RW_LOCK_EX \<or> request_type ?c = RW_LOCK_WAIT_EX" using RW_LOCK_EX by simp
        have ne: "request_type ?c \<noteq> SYNC_MUTEX" using RW_LOCK_EX by simp
        have s: "deadlock_loop self arr heap start (x_request_follows ?c)
                   (debug_list (rw_lock_at heap (wait_object ?c))) (depth + 1) = Inr b"
          using r ok w RW_LOCK_EX
          by (simp add: sync_array_detect_deadlock.simps [of self arr heap start cell depth] Let_def)
        have "b = (\<exists>debug \<in> set (debug_list (rw_lock_at heap (wait_object ?c))).
                    x_request_follows ?c debug \<and> debug_pass debug = 0 \<and>
                    step_finds arr heap start (debug_thread_id debug))"
          using "1.IH"(2) [OF refl ok nw ne x] s by simp
        moreover have "followed_threads holder_follows heap ?c =
            map debug_thread_id (filter (\<lambda>debug. x_request_follows ?c debug \<and> debug_pass debug = 0)
                (debug_list (rw_lock_at heap (wait_object ?c))))"
          using w RW_LOCK_EX
          by (auto simp: followed_threads_def holder_follows_def x_request_follows_def intro!: filter_cong arg_cong [where f = "map debug_thread_id"])
        ultimately show ?thesis by (auto simp: wait_cycle_iff)
      next
        case RW_LOCK_WAIT_EX
        have x: "request_type ?c = RW_LOCK_EX \<or> request_type ?c = RW_LOCK_WAIT_EX" using RW_LOCK_WAIT_EX by simp
        have ne: "request_type ?c \<noteq> SYNC_MUTEX" using RW_LOCK_WAIT_EX by simp
        have s: "deadlock_loop self arr heap start (x_request_follows ?c)
                   (debug_list (rw_lock_at heap (wait_object ?c))) (depth + 1) = Inr b"
          using r ok w RW_LOCK_WAIT_EX
          by (simp add: sync_array_detect_deadlock.simps [of self arr heap start cell depth] Let_def)
        have "b = (\<exists>debug \<in> set (debug_list (rw_lock_at heap (wait_object ?c))).
                    x_request_follows ?c debug \<and> debug_pass debug = 0 \<and>
                    step_finds arr heap start (debug_thread_id debug))"
          using "1.IH"(2) [OF refl ok nw ne x] s by simp
        moreover have "followed_threads holder_follows heap ?c =
            map debug_thread_id (filter (\<lambda>debug. x_request_follows ?c debug \<and> debug_pass debug = 0)
                (debug_list (rw_lock_at heap (wait_object ?c))))"
          using w RW_LOCK_WAIT_EX
          by (auto simp: followed_threads_def holder_follows_def x_request_follows_def intro!: filter_cong arg_cong [where f = "map debug_thread_id"])
        ultimately show ?thesis by (auto simp: wait_cycle_iff)
      next
        case RW_LOCK_NOT_LOCKED
        then show ?thesis
          using r ok w
          by (simp add: sync_array_detect_deadlock.simps [of self arr heap start cell depth] Let_def)
      qed
    qed
  qed
next
  case (2 self arr heap start thr pass depth)
  show ?case
  proof (intro allI impI)
    fix b
    assume r: "sync_array_deadlock_step self arr heap start thr pass depth = Inr b"
    show "b = (pass = 0 \<and> step_finds arr heap start thr)"
    proof (cases "pass = 0")
      case False
      then show ?thesis
        using r by (simp add: sync_array_deadlock_step.simps)
    next
      case p: True
      show ?thesis
      proof (cases "sync_array_find_thread arr thr")
        case None
        then show ?thesis
          using r p by (simp add: sync_array_deadlock_step.simps
                step_finds_def)
      next
        case (Some new_cell)
        show ?thesis
        proof (cases "new_cell = start")
          case True
          then show ?thesis
            using r p Some by (simp add: sync_array_deadlock_step.simps
                step_finds_def)
        next
          case False
          have np: "\<not> pass \<noteq> 0" using p by simp
          have "sync_array_detect_deadlock self arr heap start new_cell (depth + 1) = Inr b"
            using r p Some False
            by (simp add: sync_array_deadlock_step.simps)
          with "2.IH" [OF np Some False] show ?thesis
            using p Some False by (simp add: step_finds_def)
        qed
      qed
    qed
  qed
next
  case (3 self arr heap start follows depth)
  then show ?case by simp
next
  case (4 self arr heap start follows debug rest depth)
  show ?case
  proof (intro allI impI)
    fix b
    assume r: "deadlock_loop self arr heap start follows (debug # rest) depth = Inr b"
    show "b = (\<exists>d \<in> set (debug # rest). follows d \<and> debug_pass d = 0 \<and>
               step_finds arr heap start (debug_thread_id d))"
    proof (cases "follows debug")
      case False
      then have "deadlock_loop self arr heap start follows rest depth = Inr b" using r by simp
      with "4.IH"(3) [OF False] False show ?thesis by auto
    next
      case f: True
      show ?thesis
      proof (cases "sync_array_deadlock_step self arr heap start (debug_thread_id debug) (debug_pass debug) depth")
        case (Inl e)
        then show ?thesis using r f by simp
      next
        case (Inr ret)
        from "4.IH"(1) [OF f] Inr
        have ret: "ret = (debug_pass debug = 0 \<and> step_finds arr heap start (debug_thread_id debug))" by simp
        show ?thesis
        proof (cases ret)
          case True
          then have "b = True" using r f Inr by simp
          with True ret f show ?thesis by auto
        next
          case False
          then have "deadlock_loop self arr heap start follows rest depth = Inr b" using r f Inr by simp
          with "4.IH"(2) [OF f Inr False] False ret show ?thesis by auto
        qed
      qed
    qed
  qed
qed

lemma two_thread_deadlock:
  "sync_array_detect_deadlock 1
     (test_array [waiting_cell 5 RW_LOCK_EX 1, waiting_cell 6 SYNC_MUTEX 2] 2)
     (held_heap 1 [s_holder 2]) 0 0 0 = Inr True"
  by code_simp

lemma self_deadlock:
  "sync_array_detect_deadlock 1 (test_array [waiting_cell 5 RW_LOCK_EX 1] 1)
     (held_heap 2 [s_holder 1]) 0 0 0 = Inr True"
  by code_simp

text \<open>
  Claim C6, as amended. The deadlock search starts from the reserving cell and follows
  wait object, holder thread and the holder's cell recursively, going on from a cell
  only if it is waiting and to holders with \<open>pass = 0\<close> only: for a mutex, the
  owner of the locked mutex; for a shared request, every writer and waiting writer;
  for an exclusive or wait-exclusive request, every reader, the requester's own
  thread included, and every writer or waiting writer of another thread. When the
  search returns, it reports a deadlock exactly when this traversal leads back to
  the starting cell.
\<close>

theorem detect_deadlock_reports_wait_cycle:
  assumes "sync_array_detect_deadlock self arr heap start cell depth = Inr b"
  shows "b = wait_cycle (followed_threads holder_follows heap) arr start cell"
  using detect_deadlock_correct_aux(1) [of self arr heap start cell depth] assms by simp

theorem detect_deadlock_reports_wait_cycle_witness:
  "sync_array_detect_deadlock 1
     (test_array [waiting_cell 5 RW_LOCK_EX 1, waiting_cell 6 SYNC_MUTEX 2] 2)
     (held_heap 1 [s_holder 2]) 0 0 0 = Inr True
   \<and> wait_cycle (followed_threads holder_follows (held_heap 1 [s_holder 2]))
       (test_array [waiting_cell 5 RW_LOCK_EX 1, waiting_cell 6 SYNC_MUTEX 2] 2) 0 0"
  using detect_deadlock_reports_wait_cycle [OF two_thread_deadlock] two_thread_deadlock by simp

text \<open>
  The claim as stated fails: a thread that holds a read lock and requests the lock
  exclusively is reported, although no holder of another thread is in its way.
\<close>

theorem own_read_lock_counterexample:
  "sync_array_detect_deadlock 1 (test_array [waiting_cell 5 RW_LOCK_EX 1] 1)
     (held_heap 2 [s_holder 1]) 0 0 0 = Inr True
   \<and> \<not> wait_cycle (followed_threads claimed_holder_follows (held_heap 2 [s_holder 1]))
         (test_array [waiting_cell 5 RW_LOCK_EX 1] 1) 0 0"
proof -
  have "followed_threads claimed_holder_follows (held_heap 2 [s_holder 1]) (waiting_cell 5 RW_LOCK_EX 1) = []"
    by (simp add: followed_threads_def claimed_holder_follows_def held_heap_def s_holder_def
          waiting_cell_def)
  then have "\<not> wait_cycle (followed_threads claimed_holder_follows (held_heap 2 [s_holder 1]))
         (test_array [waiting_cell 5 RW_LOCK_EX 1] 1) 0 0"
    by (auto elim: wait_cycle.cases simp: test_array_def)
  with self_deadlock show ?thesis by simp
qed

subsection \<open>Scratch slots\<close>

text \<open>
  Claim C8. \<open>acquire\<close> returns true iff the slot was not reserved, and leaves it
  reserved; a second \<open>acquire\<close> with no \<open>release\<close> between returns false;
  \<open>release\<close> clears the flag, so that after \<open>acquire\<close> and \<open>release\<close> the next
  \<open>acquire\<close> succeeds. (The model runs the calls one after the other; that the
  exchange is atomic is the contract of \<open>my_atomic_fas32_explicit\<close>.)
\<close>

theorem scratch_slot_test_and_set:
  "fst (acquire slot) = (reserved slot = 0)
   \<and> reserved (snd (acquire slot)) = 1
   \<and> fst (acquire (snd (acquire slot))) = False
   \<and> reserved (release slot) = 0
   \<and> fst (acquire (release (snd (acquire slot)))) = True"
  by (simp add: acquire_def release_def my_atomic_fas32_def my_atomic_store32_def)

subsection \<open>The flush list and the states of a descriptor\<close>

lemma pool_inv_init: "pool_inv (pool_init n)"
  by (simp add: pool_inv_def pool_init_def free_descriptor_def)

lemma pool_inv_step:
  assumes "pool_inv p" "pool_apply p op = Some p'"
  shows "pool_inv p'"
proof (cases op)
  case (Allocate d)
  then show ?thesis using assms
    by (auto simp: pool_inv_def set_descriptor_def Let_def nth_list_update split: if_splits)
next
  case (Read_start d)
  then show ?thesis using assms
    by (auto simp: pool_inv_def set_descriptor_def Let_def nth_list_update split: if_splits)
next
  case (Read_done d)
  then show ?thesis using assms
    by (auto simp: pool_inv_def set_descriptor_def Let_def nth_list_update split: if_splits)
next
  case (Read_failed d)
  then show ?thesis using assms
    by (auto simp: pool_inv_def set_descriptor_def Let_def nth_list_update split: if_splits)
next
  case (Create d)
  then show ?thesis using assms
    by (auto simp: pool_inv_def set_descriptor_def Let_def nth_list_update split: if_splits)
next
  case (Use_as_memory d)
  then show ?thesis using assms
    by (auto simp: pool_inv_def set_descriptor_def Let_def nth_list_update split: if_splits)
next
  case (Free_memory d)
  then show ?thesis using assms
    by (auto simp: pool_inv_def set_descriptor_def Let_def nth_list_update split: if_splits)
next
  case (Get_hit d)
  then show ?thesis using assms
    by (auto simp: pool_inv_def set_descriptor_def Let_def nth_list_update split: if_splits)
next
  case (Release d)
  then show ?thesis using assms
    by (auto simp: pool_inv_def set_descriptor_def Let_def nth_list_update split: if_splits)
next
  case (Modify d lsn)
  then show ?thesis using assms
    by (auto simp: pool_inv_def set_descriptor_def Let_def nth_list_update split: if_splits)
next
  case (Write_start d)
  then show ?thesis using assms
    by (auto simp: pool_inv_def set_descriptor_def Let_def nth_list_update split: if_splits)
next
  case (Write_done d)
  then show ?thesis using assms
    by (auto simp: pool_inv_def set_descriptor_def Let_def nth_list_update split: if_splits)
next
  case (Evict d)
  then show ?thesis using assms
    by (auto simp: pool_inv_def set_descriptor_def Let_def nth_list_update split: if_splits)
qed

lemma pool_reachable_inv: "pool_reachable p \<Longrightarrow> pool_inv p"
  by (induction rule: pool_reachable.induct) (auto intro: pool_inv_init pool_inv_step)

lemma pool_run_reachable: "pool_reachable p \<Longrightarrow> pool_run p ops = Some p' \<Longrightarrow> pool_reachable p'"
  by (induction ops arbitrary: p) (auto split: option.splits intro: pool_reachable.step)

lemma dirty_pool_run: "pool_run (pool_init 2) [Allocate 0, Create 0, Modify 0 100] = Some dirty_pool"
  by code_simp

text \<open>
  Claim C4. For every descriptor of a pool that the operations produce from an
  initialised pool, the descriptor is in the flush list iff its
  \<open>oldest_modification_lsn\<close> is positive, which holds iff it is a file page with an
  unflushed modification or \<open>ZIP_DIRTY\<close>; a clean page is not in the flush list.
\<close>

theorem flush_list_iff_dirty:
  assumes "pool_reachable p" "d < length (descriptors p)"
  shows "(d \<in> set (flush_list p)) = (0 < oldest_modification_lsn (descriptors p ! d))
       \<and> (0 < oldest_modification_lsn (descriptors p ! d)) =
           (state (descriptors p ! d) = BUF_BLOCK_FILE_PAGE \<and> 0 < oldest_modification_lsn (descriptors p ! d)
            \<or> state (descriptors p ! d) = BUF_BLOCK_ZIP_DIRTY)
       \<and> (oldest_modification_lsn (descriptors p ! d) = 0 \<longrightarrow> d \<notin> set (flush_list p))"
  using pool_reachable_inv [OF assms(1)] assms(2) by (auto simp: pool_inv_def)

theorem flush_list_iff_dirty_witness:
  "(0 \<in> set (flush_list dirty_pool)) = (0 < oldest_modification_lsn (descriptors dirty_pool ! 0))
   \<and> (1 \<in> set (flush_list dirty_pool)) = (0 < oldest_modification_lsn (descriptors dirty_pool ! 1))
   \<and> 0 \<in> set (flush_list dirty_pool) \<and> 1 \<notin> set (flush_list dirty_pool)"
proof -
  have r: "pool_reachable dirty_pool"
    by (rule pool_run_reachable [OF pool_reachable.init dirty_pool_run])
  have l: "0 < length (descriptors dirty_pool)" "1 < length (descriptors dirty_pool)"
    by (simp_all add: dirty_pool_def)
  show ?thesis
    using flush_list_iff_dirty [OF r l(1)] flush_list_iff_dirty [OF r l(2)]
    by (simp add: dirty_pool_def free_descriptor_def)
qed



end
